theory Spec2Isabelle
  imports Main "HOL-Library.Word" "HOL-Library.Code_Target_Nat"
begin

unbundle bit_operations_syntax

section \<open>Wide strings and the C library functions used by filesup.c\<close>

text \<open>
  A \<^verbatim>\<open>WCHAR\<close> is a 16-bit code unit, a \<^verbatim>\<open>ULONG\<close> a 32-bit unsigned integer.
  A \<^verbatim>\<open>PCWSTR\<close> is modelled by the list of code units stored from the pointer on.
  The string ends at the first 0 cell; a list without a 0 cell is a string whose
  terminator directly follows the last element, so reading the cell at the end of
  the list (\<open>peek\<close>) gives 0.  Advancing a pointer by \<open>n\<close> is \<open>drop n\<close>.
\<close>

type_synonym WCHAR = "16 word"
type_synonym ULONG = "32 word"

definition L :: "string \<Rightarrow> WCHAR list" where
  "L s = map of_char s"

abbreviation OBJ_NAME_PATH_SEPARATOR :: WCHAR where
  "OBJ_NAME_PATH_SEPARATOR \<equiv> 0x5C"

fun peek :: "WCHAR list \<Rightarrow> WCHAR" where
  "peek [] = 0"
| "peek (c # cs) = c"

text \<open>
  Modelled from the spec: \<^verbatim>\<open>iswdigit\<close>, \<^verbatim>\<open>towlower\<close>, \<^verbatim>\<open>_wcsnicmp\<close> and \<^verbatim>\<open>wcstoul\<close> belong to
  the C runtime, not to filesup.c.  The specification (section 4.3) speaks of
  "case-insensitive literals", of "decimal digits" and of "standard decimal parsing".
  The functions are modelled as ISO C describes them in the "C" locale: the decimal
  digits are \<^verbatim>\<open>0\<close> to \<^verbatim>\<open>9\<close>, and only the letters \<^verbatim>\<open>A\<close> to \<^verbatim>\<open>Z\<close> have a lower-case
  counterpart.
\<close>

definition iswdigit :: "WCHAR \<Rightarrow> bool" where
  "iswdigit c = (0x30 \<le> c \<and> c \<le> 0x39)"

definition towlower :: "WCHAR \<Rightarrow> WCHAR" where
  "towlower c = (if 0x41 \<le> c \<and> c \<le> 0x5A then c + 0x20 else c)"

text \<open>
  \<^verbatim>\<open>_wcsnicmp(s1, s2, n)\<close>: compares at most \<open>n\<close> code units, lower-casing both sides,
  and stops after a common terminator.  The result is the difference of the first
  pair of code units that differ, 0 when there is none.
\<close>

fun wcsnicmp :: "WCHAR list \<Rightarrow> WCHAR list \<Rightarrow> nat \<Rightarrow> int" where
  "wcsnicmp s1 s2 0 = 0"
| "wcsnicmp s1 s2 (Suc n) =
     (let c1 = towlower (peek s1); c2 = towlower (peek s2)
      in if c1 \<noteq> c2 then uint c1 - uint c2
         else if c1 = 0 then 0
         else wcsnicmp (tl s1) (tl s2) n)"

text \<open>
  \<^verbatim>\<open>wcstoul(nptr, &endptr, 10)\<close>.  filesup.c calls it only where \<^verbatim>\<open>*nptr\<close> is a decimal
  digit, so the white space and the sign that the library function would skip first
  are never met; what is left is the digit loop.  It consumes every decimal digit, and
  a value that does not fit a \<^verbatim>\<open>ULONG\<close> is returned as \<^verbatim>\<open>ULONG_MAX\<close>.  The second
  component is \<^verbatim>\<open>endptr\<close>: the text after the last digit consumed.
\<close>

definition ULONG_MAX :: nat where
  "ULONG_MAX = 4294967295"

definition digit_value :: "WCHAR \<Rightarrow> nat" where
  "digit_value c = unat (c - 0x30)"

fun wcstoul_digits :: "nat \<Rightarrow> WCHAR list \<Rightarrow> nat \<times> WCHAR list" where
  "wcstoul_digits acc [] = (acc, [])"
| "wcstoul_digits acc (c # cs) =
     (if iswdigit c then wcstoul_digits (acc * 10 + digit_value c) cs
      else (acc, c # cs))"

definition wcstoul :: "WCHAR list \<Rightarrow> ULONG \<times> WCHAR list" where
  "wcstoul nptr =
     (let (acc, endptr) = wcstoul_digits 0 nptr
      in (if ULONG_MAX < acc then of_nat ULONG_MAX else of_nat acc, endptr))"

section \<open>NtPathToDiskPartComponents\<close>

text \<open>
  The three output parameters and the returned \<^verbatim>\<open>BOOLEAN\<close>.  \<open>PathComponent\<close> is the
  pointer stored through the optional output parameter: \<open>None\<close> is \<^verbatim>\<open>NULL\<close> (also what
  is reported when the caller passed no \<^verbatim>\<open>PathComponent\<close>), \<open>Some p\<close> a pointer into
  \<^verbatim>\<open>NtPath\<close>, given as the text from the pointer on.
\<close>

record parse_result =
  Succeeded :: bool
  DiskNumber :: ULONG
  PartNumber :: ULONG
  PathComponent :: "WCHAR list option"

definition Harddisk_prefix :: "WCHAR list" where
  "Harddisk_prefix = L (CHR 0x5C # ''Device'' @ CHR 0x5C # ''Harddisk'')"

definition Partition_literal :: "WCHAR list" where
  "Partition_literal = L (CHR 0x5C # ''Partition'')"

text \<open>The two ways out: \<^verbatim>\<open>return FALSE\<close> with the outputs as initialised, and the label \<^verbatim>\<open>Quit\<close>.\<close>

definition parse_failed :: parse_result where
  "parse_failed = \<lparr>Succeeded = False, DiskNumber = 0, PartNumber = 0, PathComponent = None\<rparr>"

definition parse_quit :: "bool \<Rightarrow> ULONG \<Rightarrow> ULONG \<Rightarrow> WCHAR list \<Rightarrow> parse_result" where
  "parse_quit wantPath disk part Path =
     \<lparr>Succeeded = True, DiskNumber = disk, PartNumber = part,
      PathComponent = (if wantPath then Some Path else None)\<rparr>"

definition NtPathToDiskPartComponents :: "WCHAR list \<Rightarrow> bool \<Rightarrow> parse_result" where
  "NtPathToDiskPartComponents NtPath wantPath =
     (if wcsnicmp NtPath Harddisk_prefix 16 \<noteq> 0 then parse_failed
      else let Path = drop 16 NtPath in
        if \<not> iswdigit (peek Path) then parse_failed
        else let (disk, Path) = wcstoul Path in
          if peek Path \<noteq> 0 \<and> peek Path \<noteq> OBJ_NAME_PATH_SEPARATOR then parse_failed
          else if peek Path = 0 then parse_quit wantPath disk 0 Path
          else if wcsnicmp Path Partition_literal 10 \<noteq> 0 then parse_quit wantPath disk 0 Path
          else let Path = drop 10 Path in
            if \<not> iswdigit (peek Path) then parse_quit wantPath disk 0 Path
            else let (part, Path) = wcstoul Path in
              if peek Path \<noteq> 0 \<and> peek Path \<noteq> OBJ_NAME_PATH_SEPARATOR
              then parse_quit wantPath disk 0 Path
              else parse_quit wantPath disk part Path)"


section \<open>Status codes and the bounded string primitives\<close>

type_synonym NTSTATUS = "32 word"

definition STATUS_SUCCESS :: NTSTATUS where
  "STATUS_SUCCESS = 0"

definition STATUS_BUFFER_OVERFLOW :: NTSTATUS where
  "STATUS_BUFFER_OVERFLOW = 0x80000005"

definition STATUS_INVALID_PARAMETER :: NTSTATUS where
  "STATUS_INVALID_PARAMETER = 0xC000000D"

text \<open>\<^verbatim>\<open>#define NT_SUCCESS(Status) (((NTSTATUS)(Status)) >= 0)\<close>, an \<^verbatim>\<open>NTSTATUS\<close> being a signed 32-bit integer.\<close>

definition NT_SUCCESS :: "NTSTATUS \<Rightarrow> bool" where
  "NT_SUCCESS Status = (0 \<le> sint Status)"

definition NTSTRSAFE_MAX_CCH :: nat where
  "NTSTRSAFE_MAX_CCH = 2147483647"

text \<open>
  A writable buffer (\<^verbatim>\<open>PWSTR\<close> with a size) is the list of the cells of the array the
  pointer points to, so the length of the list is the real extent of the array.  An
  access to a cell outside the array is undefined behaviour in C; the model returns
  \<open>None\<close> for it.

  \<^verbatim>\<open>wcslen\<close> reads up to the first 0 cell.
\<close>

definition wcslen :: "WCHAR list \<Rightarrow> nat option" where
  "wcslen s = (if 0 \<in> set s then Some (length (takeWhile (\<lambda>c. c \<noteq> 0) s)) else None)"

text \<open>
  Modelled from the spec: \<^verbatim>\<open>RtlStringCchCatW\<close> and \<^verbatim>\<open>RtlStringCchCopyW\<close> come from
  ntstrsafe.h, which is not part of filesup.c.  The spec asks of the concatenation
  that it "must fail with a length-exceeded error rather than silently truncate or
  overflow".  The model follows the documented behaviour of the two functions and of
  the workers they are built from: the destination is measured within \<^verbatim>\<open>cchDest\<close> cells
  (\<^verbatim>\<open>STATUS_INVALID_PARAMETER\<close> when no terminator is found there or when \<^verbatim>\<open>cchDest\<close>
  exceeds \<^verbatim>\<open>NTSTRSAFE_MAX_CCH\<close>), the source is copied cell by cell while room is left,
  and when the room runs out the last cell is given back to the terminator and the
  status is \<^verbatim>\<open>STATUS_BUFFER_OVERFLOW\<close>.
\<close>

text \<open>
  The scan of \<^verbatim>\<open>RtlStringLengthWorkerW\<close>: \<^verbatim>\<open>while (cchMax && (*psz != 0)) { psz++; cchMax--; }\<close>.
  The result is the value of \<^verbatim>\<open>cchMax\<close> after the loop.
\<close>

fun length_scan :: "WCHAR list \<Rightarrow> nat \<Rightarrow> nat option" where
  "length_scan [] cchMax = (if cchMax \<noteq> 0 then None else Some cchMax)"
| "length_scan (c # cs) cchMax =
     (if cchMax \<noteq> 0 \<and> c \<noteq> 0 then length_scan cs (cchMax - 1) else Some cchMax)"

definition RtlStringLengthWorkerW :: "WCHAR list \<Rightarrow> nat \<Rightarrow> (NTSTATUS \<times> nat) option" where
  "RtlStringLengthWorkerW psz cchMax =
     (case length_scan psz cchMax of
        None \<Rightarrow> None
      | Some remaining \<Rightarrow>
          if remaining = 0 then Some (STATUS_INVALID_PARAMETER, 0)
          else Some (STATUS_SUCCESS, cchMax - remaining))"

text \<open>
  The copy loop of \<^verbatim>\<open>RtlStringCopyWorkerW\<close>:
  \<^verbatim>\<open>while (cchDest && (*pszSrc != 0)) { *pszDest++ = *pszSrc++; cchDest--; }\<close>.
  The destination pointer is the buffer with an index into it.  The result is the
  buffer, the index and \<^verbatim>\<open>cchDest\<close> after the loop.
\<close>

fun copy_loop :: "WCHAR list \<Rightarrow> nat \<Rightarrow> nat \<Rightarrow> WCHAR list \<Rightarrow> (WCHAR list \<times> nat \<times> nat) option" where
  "copy_loop buf pos 0 src = Some (buf, pos, 0)"
| "copy_loop buf pos (Suc n) src =
     (if peek src \<noteq> 0
      then if pos < length buf
           then copy_loop (buf[pos := peek src]) (Suc pos) n (tl src)
           else None
      else Some (buf, pos, Suc n))"

definition RtlStringCopyWorkerW ::
    "WCHAR list \<Rightarrow> nat \<Rightarrow> nat \<Rightarrow> WCHAR list \<Rightarrow> (NTSTATUS \<times> WCHAR list) option" where
  "RtlStringCopyWorkerW buf pos cchDest src =
     (if cchDest = 0 then Some (STATUS_INVALID_PARAMETER, buf)
      else case copy_loop buf pos cchDest src of
        None \<Rightarrow> None
      | Some (buf', pos', remaining) \<Rightarrow>
          let (pos'', Status) =
                (if remaining = 0 then (pos' - 1, STATUS_BUFFER_OVERFLOW)
                 else (pos', STATUS_SUCCESS))
          in if pos'' < length buf' then Some (Status, buf'[pos'' := 0]) else None)"

definition RtlStringCatWorkerW ::
    "WCHAR list \<Rightarrow> nat \<Rightarrow> WCHAR list \<Rightarrow> (NTSTATUS \<times> WCHAR list) option" where
  "RtlStringCatWorkerW buf cchDest src =
     (case RtlStringLengthWorkerW buf cchDest of
        None \<Rightarrow> None
      | Some (Status, cchDestLength) \<Rightarrow>
          if NT_SUCCESS Status
          then RtlStringCopyWorkerW buf cchDestLength (cchDest - cchDestLength) src
          else Some (Status, buf))"

definition RtlStringCchCatW ::
    "WCHAR list \<Rightarrow> nat \<Rightarrow> WCHAR list \<Rightarrow> (NTSTATUS \<times> WCHAR list) option" where
  "RtlStringCchCatW pszDest cchDest pszSrc =
     (if NTSTRSAFE_MAX_CCH < cchDest then Some (STATUS_INVALID_PARAMETER, pszDest)
      else RtlStringCatWorkerW pszDest cchDest pszSrc)"

definition RtlStringCchCopyW ::
    "WCHAR list \<Rightarrow> nat \<Rightarrow> WCHAR list \<Rightarrow> (NTSTATUS \<times> WCHAR list) option" where
  "RtlStringCchCopyW pszDest cchDest pszSrc =
     (if NTSTRSAFE_MAX_CCH < cchDest then Some (STATUS_INVALID_PARAMETER, pszDest)
      else RtlStringCopyWorkerW pszDest 0 cchDest pszSrc)"

section \<open>ConcatPaths\<close>

text \<open>
  \<open>PathElem1\<close> is the buffer, \<open>cchPathSize\<close> its declared capacity, \<open>PathElem2\<close> the
  optional addition (\<open>None\<close> is the \<^verbatim>\<open>NULL\<close> pointer).  The result is the returned status
  and the buffer as the call leaves it.  The loop of lines 42 and 43,
  \<^verbatim>\<open>while (*PathElem2 == L'\\') ++PathElem2;\<close>, is \<open>dropWhile\<close>: it stops at the terminator.
\<close>

definition ConcatPaths ::
    "WCHAR list \<Rightarrow> nat \<Rightarrow> WCHAR list option \<Rightarrow> (NTSTATUS \<times> WCHAR list) option" where
  "ConcatPaths PathElem1 cchPathSize PathElem2 =
     (case PathElem2 of
        None \<Rightarrow> Some (STATUS_SUCCESS, PathElem1)
      | Some Elem2 \<Rightarrow>
          if cchPathSize \<le> 1 then Some (STATUS_SUCCESS, PathElem1)
          else case wcslen PathElem1 of
            None \<Rightarrow> None
          | Some len \<Rightarrow>
              let cchPathLen = min cchPathSize len in
              if peek Elem2 \<noteq> OBJ_NAME_PATH_SEPARATOR \<and> 0 < cchPathLen \<and>
                 PathElem1 ! (cchPathLen - 1) \<noteq> OBJ_NAME_PATH_SEPARATOR
              then
                (case RtlStringCchCatW PathElem1 cchPathSize [OBJ_NAME_PATH_SEPARATOR] of
                   None \<Rightarrow> None
                 | Some (Status, buf) \<Rightarrow>
                     if \<not> NT_SUCCESS Status then Some (Status, buf)
                     else RtlStringCchCatW buf cchPathSize Elem2)
              else if peek Elem2 = OBJ_NAME_PATH_SEPARATOR \<and> 0 < cchPathLen \<and>
                      PathElem1 ! (cchPathLen - 1) = OBJ_NAME_PATH_SEPARATOR
              then RtlStringCchCatW PathElem1 cchPathSize
                     (dropWhile (\<lambda>c. c = OBJ_NAME_PATH_SEPARATOR) Elem2)
              else RtlStringCchCatW PathElem1 cchPathSize Elem2)"


section \<open>What a buffer holds, and the join of the specification\<close>

text \<open>The string held by a buffer: its cells up to the first terminator.\<close>

definition cstr :: "WCHAR list \<Rightarrow> WCHAR list" where
  "cstr s = takeWhile (\<lambda>c. c \<noteq> 0) s"

text \<open>
  The separator policy in the words of the specification (section 4.1), on strings
  without terminator: with \<open>base\<close> of length \<open>L\<close>, if the addition does not start with the
  separator, \<open>L > 0\<close> and the last character of \<open>base\<close> is not the separator, exactly one
  separator is put in between; else if the addition starts with the separator and
  \<open>base\<close> ends with it, all leading separators of the addition are skipped; else the
  two are concatenated as they are.
\<close>

definition spec_join :: "WCHAR list \<Rightarrow> WCHAR list \<Rightarrow> WCHAR list" where
  "spec_join base addition =
     (if peek addition \<noteq> OBJ_NAME_PATH_SEPARATOR \<and> base \<noteq> [] \<and>
         last base \<noteq> OBJ_NAME_PATH_SEPARATOR
      then base @ [OBJ_NAME_PATH_SEPARATOR] @ addition
      else if peek addition = OBJ_NAME_PATH_SEPARATOR \<and> base \<noteq> [] \<and>
              last base = OBJ_NAME_PATH_SEPARATOR
      then base @ dropWhile (\<lambda>c. c = OBJ_NAME_PATH_SEPARATOR) addition
      else base @ addition)"


section \<open>The kernel services behind OpenAndMapFile and UnMapFile\<close>

type_synonym HANDLE = nat
type_synonym PVOID = nat

abbreviation (input) NULL :: nat where
  "NULL \<equiv> 0"

definition STATUS_INVALID_HANDLE :: NTSTATUS where
  "STATUS_INVALID_HANDLE = 0xC0000008"

definition STATUS_NOT_MAPPED_VIEW :: NTSTATUS where
  "STATUS_NOT_MAPPED_VIEW = 0xC0000019"

definition STATUS_OBJECT_NAME_NOT_FOUND :: NTSTATUS where
  "STATUS_OBJECT_NAME_NOT_FOUND = 0xC0000034"

text \<open>The access, share and option flags filesup.c passes, with their values in the NT headers.\<close>

definition GENERIC_READ :: ULONG where
  "GENERIC_READ = 0x80000000"

definition SYNCHRONIZE :: ULONG where
  "SYNCHRONIZE = 0x00100000"

definition FILE_SHARE_READ :: ULONG where
  "FILE_SHARE_READ = 0x00000001"

definition FILE_SHARE_WRITE :: ULONG where
  "FILE_SHARE_WRITE = 0x00000002"

definition FILE_SYNCHRONOUS_IO_NONALERT :: ULONG where
  "FILE_SYNCHRONOUS_IO_NONALERT = 0x00000020"

definition FILE_NON_DIRECTORY_FILE :: ULONG where
  "FILE_NON_DIRECTORY_FILE = 0x00000040"

definition OBJ_CASE_INSENSITIVE :: ULONG where
  "OBJ_CASE_INSENSITIVE = 0x00000040"

definition SECTION_MAP_READ :: ULONG where
  "SECTION_MAP_READ = 0x0004"

definition PAGE_READONLY :: ULONG where
  "PAGE_READONLY = 0x02"

definition SEC_COMMIT :: ULONG where
  "SEC_COMMIT = 0x08000000"

definition ViewShare :: ULONG where
  "ViewShare = 1"

definition MAX_PATH :: nat where
  "MAX_PATH = 260"

text \<open>
  The arguments of \<^verbatim>\<open>NtOpenFile\<close> that filesup.c chooses: the object attributes set up
  by \<^verbatim>\<open>InitializeObjectAttributes\<close> (root directory, name, attributes) and the three
  masks.
\<close>

record open_request =
  DesiredAccess :: ULONG
  RootDirectory :: HANDLE
  ObjectName :: "WCHAR list"
  Attributes :: ULONG
  ShareAccess :: ULONG
  OpenOptions :: ULONG

text \<open>
  The system calls as they are issued, with the arguments that are not constant
  \<^verbatim>\<open>NULL\<close> or 0: \<^verbatim>\<open>NtCreateSection\<close> with desired access, page protection, allocation
  attributes and file handle; \<^verbatim>\<open>NtMapViewOfSection\<close> with section handle, inherit
  disposition and protection.
\<close>

datatype syscall =
    SysOpenFile open_request
  | SysQueryInformationFile HANDLE
  | SysCreateSection ULONG ULONG ULONG HANDLE
  | SysMapViewOfSection HANDLE ULONG ULONG
  | SysUnmapViewOfSection PVOID
  | SysClose HANDLE

text \<open>
  Modelled from the spec: the kernel is not part of filesup.c; the specification
  (sections 3 and 6) describes it as "a kernel-object namespace service providing
  open/create-section/map-view/unmap/close/query-attributes operations", whose file
  handles, section handles and mapped views are resources that are acquired by a
  successful call and must be released again.  The state of the service is the
  handles that are open, the views that are mapped, and the calls issued so far.
\<close>

record kernel =
  handles :: "HANDLE list"
  views :: "PVOID list"
  calls :: "syscall list"

text \<open>
  What the service answers to the acquiring calls is not determined by filesup.c (it
  depends on the files that exist), so it is a parameter: the status together with
  the value stored through the output parameter.  \<^verbatim>\<open>EndOfFile\<close> is the 64-bit
  \<^verbatim>\<open>LARGE_INTEGER\<close> of \<^verbatim>\<open>FILE_STANDARD_INFORMATION\<close>.
\<close>

record nt_service =
  open_file :: "open_request \<Rightarrow> kernel \<Rightarrow> NTSTATUS \<times> HANDLE"
  query_end_of_file :: "HANDLE \<Rightarrow> kernel \<Rightarrow> NTSTATUS \<times> 64 word"
  create_section :: "HANDLE \<Rightarrow> kernel \<Rightarrow> NTSTATUS \<times> HANDLE"
  map_view :: "HANDLE \<Rightarrow> kernel \<Rightarrow> NTSTATUS \<times> PVOID"

definition log_call :: "syscall \<Rightarrow> kernel \<Rightarrow> kernel" where
  "log_call c k = k\<lparr>calls := calls k @ [c]\<rparr>"

text \<open>
  A successful acquiring call allocates what it returns; a failing one allocates
  nothing and leaves the output parameter as it was (\<^verbatim>\<open>NULL\<close> in filesup.c, which
  clears the outputs first).
\<close>

definition NtOpenFile :: "nt_service \<Rightarrow> open_request \<Rightarrow> kernel \<Rightarrow> NTSTATUS \<times> HANDLE \<times> kernel" where
  "NtOpenFile nt req k =
     (let (Status, h) = open_file nt req k; k1 = log_call (SysOpenFile req) k
      in if NT_SUCCESS Status then (Status, h, k1\<lparr>handles := h # handles k1\<rparr>)
         else (Status, NULL, k1))"

definition NtQueryInformationFile :: "nt_service \<Rightarrow> HANDLE \<Rightarrow> kernel \<Rightarrow> NTSTATUS \<times> 64 word \<times> kernel" where
  "NtQueryInformationFile nt h k =
     (let (Status, EndOfFile) = query_end_of_file nt h k
      in (Status, EndOfFile, log_call (SysQueryInformationFile h) k))"

definition NtCreateSection ::
    "nt_service \<Rightarrow> ULONG \<Rightarrow> ULONG \<Rightarrow> ULONG \<Rightarrow> HANDLE \<Rightarrow> kernel \<Rightarrow> NTSTATUS \<times> HANDLE \<times> kernel" where
  "NtCreateSection nt access protection attributes file k =
     (let (Status, h) = create_section nt file k;
          k1 = log_call (SysCreateSection access protection attributes file) k
      in if NT_SUCCESS Status then (Status, h, k1\<lparr>handles := h # handles k1\<rparr>)
         else (Status, NULL, k1))"

definition NtMapViewOfSection ::
    "nt_service \<Rightarrow> HANDLE \<Rightarrow> ULONG \<Rightarrow> ULONG \<Rightarrow> kernel \<Rightarrow> NTSTATUS \<times> PVOID \<times> kernel" where
  "NtMapViewOfSection nt section inherit protection k =
     (let (Status, base) = map_view nt section k;
          k1 = log_call (SysMapViewOfSection section inherit protection) k
      in if NT_SUCCESS Status then (Status, base, k1\<lparr>views := base # views k1\<rparr>)
         else (Status, NULL, k1))"

text \<open>
  The releasing calls: closing a handle that is open releases it, closing any other
  value fails; unmapping an address that is the base of a mapped view removes the
  view, unmapping any other address fails.
\<close>

definition NtClose :: "HANDLE \<Rightarrow> kernel \<Rightarrow> NTSTATUS \<times> kernel" where
  "NtClose h k =
     (let k1 = log_call (SysClose h) k
      in if h \<in> set (handles k) then (STATUS_SUCCESS, k1\<lparr>handles := remove1 h (handles k)\<rparr>)
         else (STATUS_INVALID_HANDLE, k1))"

definition NtUnmapViewOfSection :: "PVOID \<Rightarrow> kernel \<Rightarrow> NTSTATUS \<times> kernel" where
  "NtUnmapViewOfSection base k =
     (let k1 = log_call (SysUnmapViewOfSection base) k
      in if base \<in> set (views k) then (STATUS_SUCCESS, k1\<lparr>views := remove1 base (views k)\<rparr>)
         else (STATUS_NOT_MAPPED_VIEW, k1))"

section \<open>OpenAndMapFile and UnMapFile\<close>

text \<open>
  What the caller sees after \<^verbatim>\<open>OpenAndMapFile\<close>: the returned status and the output
  parameters.  \<open>BaseAddress\<close> and \<open>FileSize\<close> are \<open>None\<close> as long as the function has not
  stored through them (\<open>FileSize\<close> also when the caller passed no pointer).
\<close>

record map_result =
  ReturnedStatus :: NTSTATUS
  FileHandle :: HANDLE
  SectionHandle :: HANDLE
  BaseAddress :: "PVOID option"
  FileSize :: "ULONG option"

text \<open>
  Lines 246 to 254: the full name is built in the local array \<^verbatim>\<open>FullName[MAX_PATH]\<close>,
  whose initial content is whatever the stack holds; the statuses of the copy and of
  the join are ignored.  \<open>None\<close> is an access outside the array.
\<close>

definition build_FullName ::
    "WCHAR list \<Rightarrow> WCHAR list option \<Rightarrow> WCHAR list option \<Rightarrow> WCHAR list option" where
  "build_FullName FullName PathName FileName =
     (case (case PathName of
              Some p \<Rightarrow> map_option snd (RtlStringCchCopyW FullName MAX_PATH p)
            | None \<Rightarrow> if 0 < length FullName then Some (FullName[0 := 0]) else None) of
        None \<Rightarrow> None
      | Some buf \<Rightarrow>
          (case FileName of
             Some f \<Rightarrow> map_option snd (ConcatPaths buf MAX_PATH (Some f))
           | None \<Rightarrow> Some buf))"

text \<open>The request of lines 256 to 270, for the name \<^verbatim>\<open>RtlInitUnicodeString\<close> reads from the array.\<close>

definition OpenAndMapFile_request :: "HANDLE \<Rightarrow> WCHAR list \<Rightarrow> open_request" where
  "OpenAndMapFile_request Root Name =
     \<lparr>DesiredAccess = GENERIC_READ OR SYNCHRONIZE,
      RootDirectory = Root,
      ObjectName = Name,
      Attributes = OBJ_CASE_INSENSITIVE,
      ShareAccess = FILE_SHARE_READ,
      OpenOptions = FILE_SYNCHRONOUS_IO_NONALERT OR FILE_NON_DIRECTORY_FILE\<rparr>"

text \<open>Lines 302 to 343: create the section, map the view.\<close>

definition OpenAndMapFile_map ::
    "nt_service \<Rightarrow> HANDLE \<Rightarrow> ULONG option \<Rightarrow> kernel \<Rightarrow> map_result \<times> kernel" where
  "OpenAndMapFile_map nt File Size k =
     (let (Status, Section, k1) =
            NtCreateSection nt SECTION_MAP_READ PAGE_READONLY SEC_COMMIT File k
      in if \<not> NT_SUCCESS Status then
           (let (_, k2) = NtClose File k1
            in (\<lparr>ReturnedStatus = Status, FileHandle = NULL, SectionHandle = Section,
                 BaseAddress = None, FileSize = Size\<rparr>, k2))
         else
           (let (Status, ViewBase, k2) = NtMapViewOfSection nt Section ViewShare PAGE_READONLY k1
            in if \<not> NT_SUCCESS Status then
                 (let (_, k3) = NtClose Section k2;
                      (_, k4) = NtClose File k3
                  in (\<lparr>ReturnedStatus = Status, FileHandle = NULL, SectionHandle = NULL,
                       BaseAddress = None, FileSize = Size\<rparr>, k4))
               else
                 (\<lparr>ReturnedStatus = STATUS_SUCCESS, FileHandle = File, SectionHandle = Section,
                   BaseAddress = Some ViewBase, FileSize = Size\<rparr>, k2)))"

text \<open>
  \<open>wantSize\<close> says whether the caller passed a \<^verbatim>\<open>FileSize\<close> pointer.  The size stored is
  \<^verbatim>\<open>FileInfo.EndOfFile.LowPart\<close>, the low 32 bits of the 64-bit byte count; a non-zero
  \<^verbatim>\<open>HighPart\<close> only prints a warning.
\<close>

definition OpenAndMapFile ::
    "nt_service \<Rightarrow> WCHAR list \<Rightarrow> HANDLE \<Rightarrow> WCHAR list option \<Rightarrow> WCHAR list option \<Rightarrow> bool \<Rightarrow>
     kernel \<Rightarrow> (map_result \<times> kernel) option" where
  "OpenAndMapFile nt FullName Root PathName FileName wantSize k =
     (case build_FullName FullName PathName FileName of
        None \<Rightarrow> None
      | Some buf \<Rightarrow>
          Some (let (Status, File, k1) = NtOpenFile nt (OpenAndMapFile_request Root (cstr buf)) k
                in if \<not> NT_SUCCESS Status then
                     (\<lparr>ReturnedStatus = Status, FileHandle = File, SectionHandle = NULL,
                       BaseAddress = None, FileSize = None\<rparr>, k1)
                   else if wantSize then
                     (let (Status, EndOfFile, k2) = NtQueryInformationFile nt File k1
                      in if \<not> NT_SUCCESS Status then
                           (let (_, k3) = NtClose File k2
                            in (\<lparr>ReturnedStatus = Status, FileHandle = NULL, SectionHandle = NULL,
                                 BaseAddress = None, FileSize = None\<rparr>, k3))
                         else OpenAndMapFile_map nt File (Some (ucast EndOfFile)) k2)
                   else OpenAndMapFile_map nt File None k1))"

definition UnMapFile :: "HANDLE \<Rightarrow> PVOID \<Rightarrow> kernel \<Rightarrow> bool \<times> kernel" where
  "UnMapFile Section Base k =
     (let Success = True;
          (Status, k1) = NtUnmapViewOfSection Base k;
          Success = (if \<not> NT_SUCCESS Status then False else Success);
          (Status, k2) = NtClose Section k1;
          Success = (if \<not> NT_SUCCESS Status then False else Success)
      in (Success, k2))"

text \<open>Two services for examples: one on which no file exists, one that grants every call.\<close>

definition no_file_service :: nt_service where
  "no_file_service =
     \<lparr>open_file = (\<lambda>req k. (STATUS_OBJECT_NAME_NOT_FOUND, NULL)),
      query_end_of_file = (\<lambda>h k. (STATUS_INVALID_HANDLE, 0)),
      create_section = (\<lambda>h k. (STATUS_INVALID_HANDLE, NULL)),
      map_view = (\<lambda>h k. (STATUS_INVALID_HANDLE, NULL))\<rparr>"

definition large_file_service :: nt_service where
  "large_file_service =
     \<lparr>open_file = (\<lambda>req k. (STATUS_SUCCESS, 4)),
      query_end_of_file = (\<lambda>h k. (STATUS_SUCCESS, 0x100000005)),
      create_section = (\<lambda>h k. (STATUS_SUCCESS, 8)),
      map_view = (\<lambda>h k. (STATUS_SUCCESS, 0x10000))\<rparr>"

definition idle_kernel :: kernel where
  "idle_kernel = \<lparr>handles = [], views = [], calls = []\<rparr>"

text \<open>The share masks of the files opened in a list of calls.\<close>

fun opened_share :: "syscall list \<Rightarrow> ULONG list" where
  "opened_share [] = []"
| "opened_share (SysOpenFile req # cs) = ShareAccess req # opened_share cs"
| "opened_share (c # cs) = opened_share cs"

section \<open>Facts about the C runtime model\<close>

lemma wcsnicmp_numeral: "wcsnicmp s1 s2 (numeral k) =
     (let c1 = towlower (peek s1); c2 = towlower (peek s2)
      in if c1 \<noteq> c2 then uint c1 - uint c2
         else if c1 = 0 then 0
         else wcsnicmp (tl s1) (tl s2) (pred_numeral k))"
  by (simp add: numeral_eq_Suc)

lemma towlower_eq_0 [simp]: "towlower c = 0 \<longleftrightarrow> c = 0"
proof -
  have "c + 0x20 \<noteq> 0" if "0x41 \<le> c" "c \<le> 0x5A"
    using that by (auto simp: word_le_nat_alt unat_word_ariths unat_eq_zero [symmetric])
  then show ?thesis by (auto simp: towlower_def)
qed

lemma towlower_0 [simp]: "towlower 0 = 0"
  by (simp add: towlower_def)

lemma uint_diff_eq_0 [simp]: "uint (a::WCHAR) - uint b = 0 \<longleftrightarrow> a = b"
  by (simp add: word_uint_eq_iff)

lemma peek_append: "peek (xs @ ys) = (if xs = [] then peek ys else peek xs)"
  by (cases xs) simp_all

lemma wcsnicmp_eq_0_iff:
  "0 \<notin> set lit \<Longrightarrow>
   wcsnicmp s lit (length lit) = 0 \<longleftrightarrow>
     length lit \<le> length s \<and> map towlower (take (length lit) s) = map towlower lit"
proof (induction lit arbitrary: s)
  case Nil
  then show ?case by simp
next
  case (Cons c cs)
  show ?case
  proof (cases s)
    case Nil
    with Cons.prems show ?thesis by (auto simp: Let_def uint_0_iff word_uint_eq_iff[symmetric])
  next
    case (Cons a as)
    with Cons.prems Cons.IH[of as] show ?thesis by (auto simp: Let_def word_uint_eq_iff[symmetric])
  qed
qed

lemma not_digit_0 [simp]: "\<not> iswdigit 0"
  by (simp add: iswdigit_def)

lemma not_digit_sep [simp]: "\<not> iswdigit OBJ_NAME_PATH_SEPARATOR"
  by (simp add: iswdigit_def)

lemma wcstoul_digits_snd: "snd (wcstoul_digits acc s) = dropWhile iswdigit s"
  by (induction s arbitrary: acc) simp_all

lemma wcstoul_digits_append:
  "\<forall>c\<in>set ds. iswdigit c \<Longrightarrow> \<not> iswdigit (peek r) \<Longrightarrow>
   wcstoul_digits acc (ds @ r) = (fst (wcstoul_digits acc ds), r)"
proof (induction ds arbitrary: acc)
  case Nil
  then show ?case by (cases r) simp_all
next
  case (Cons d ds)
  then show ?case by simp
qed

lemma wcstoul_append:
  "\<forall>c\<in>set ds. iswdigit c \<Longrightarrow> \<not> iswdigit (peek r) \<Longrightarrow>
   wcstoul (ds @ r) = (fst (wcstoul ds), r)"
  by (simp add: wcstoul_def wcstoul_digits_append split: prod.splits)

lemma wcstoul_snd: "snd (wcstoul s) = dropWhile iswdigit s"
  using wcstoul_digits_snd [of 0 s] by (auto simp: wcstoul_def split: prod.splits)

section \<open>The device-locator parser\<close>

lemma Harddisk_prefix_eval:
  "Harddisk_prefix = [0x5C, 0x44, 0x65, 0x76, 0x69, 0x63, 0x65, 0x5C, 0x48, 0x61, 0x72, 0x64, 0x64, 0x69, 0x73, 0x6B]"
  by (simp add: Harddisk_prefix_def L_def)

lemma Partition_literal_eval:
  "Partition_literal = [0x5C, 0x50, 0x61, 0x72, 0x74, 0x69, 0x74, 0x69, 0x6F, 0x6E]"
  by (simp add: Partition_literal_def L_def)

lemma Harddisk_prefix_props: "length Harddisk_prefix = 16" "0 \<notin> set Harddisk_prefix"
  by (simp_all add: Harddisk_prefix_eval)

lemma Partition_literal_props: "length Partition_literal = 10" "0 \<notin> set Partition_literal"
  by (simp_all add: Partition_literal_eval)

lemma prefix_match_iff:
  "wcsnicmp s Harddisk_prefix 16 = 0 \<longleftrightarrow>
     16 \<le> length s \<and> map towlower (take 16 s) = map towlower Harddisk_prefix"
  using wcsnicmp_eq_0_iff [of Harddisk_prefix s] by (simp add: Harddisk_prefix_props)

lemma partition_match_iff:
  "wcsnicmp s Partition_literal 10 = 0 \<longleftrightarrow>
     10 \<le> length s \<and> map towlower (take 10 s) = map towlower Partition_literal"
  using wcsnicmp_eq_0_iff [of Partition_literal s] by (simp add: Partition_literal_props)

lemma map_towlower_length:
  "map towlower p = map towlower q \<Longrightarrow> length p = length q"
  by (rule map_eq_imp_length_eq)

lemma Succeeded_parse_quit [simp]: "Succeeded (parse_quit w d n P) = True"
  by (simp add: parse_quit_def)

lemma Succeeded_parse_failed [simp]: "Succeeded parse_failed = False"
  by (simp add: parse_failed_def)

lemma parse_success_exec:
  "Succeeded (NtPathToDiskPartComponents NtPath w) \<longleftrightarrow>
     wcsnicmp NtPath Harddisk_prefix 16 = 0 \<and> iswdigit (peek (drop 16 NtPath)) \<and>
     (peek (dropWhile iswdigit (drop 16 NtPath)) = 0 \<or>
      peek (dropWhile iswdigit (drop 16 NtPath)) = OBJ_NAME_PATH_SEPARATOR)"
proof -
  obtain v r where w: "wcstoul (drop 16 NtPath) = (v, r)"
    by (cases "wcstoul (drop 16 NtPath)")
  then have r: "r = dropWhile iswdigit (drop 16 NtPath)"
    using wcstoul_snd [of "drop 16 NtPath"] by simp
  show ?thesis
    unfolding NtPathToDiskPartComponents_def
    by (simp add: w r [symmetric] Let_def split: prod.splits)
qed

lemmas parse_eval =
  NtPathToDiskPartComponents_def Harddisk_prefix_eval Partition_literal_eval L_def
  wcsnicmp_numeral towlower_def iswdigit_def wcstoul_def digit_value_def ULONG_MAX_def
  parse_quit_def parse_failed_def

text \<open>
  Claim C1.  The claim reads: the parser returns failure only for the two structural
  error classes, a prefix mismatch and no decimal digit right after the prefix, and
  returns success for every other input whose prefix and disk digits are present.

  Lines 174 to 179 of filesup.c are a third way to fail: after the disk number the
  next character must be the terminator or the separator.  The input
  \<^verbatim>\<open>\Device\Harddisk0x\<close> has the prefix and a disk digit, and the parser returns
  \<^verbatim>\<open>FALSE\<close> for it.
\<close>

theorem parse_fails_after_disk_number:
  "wcsnicmp (L (CHR 0x5C # ''Device'' @ CHR 0x5C # ''Harddisk0x'')) Harddisk_prefix 16 = 0 \<and>
   iswdigit (peek (drop 16 (L (CHR 0x5C # ''Device'' @ CHR 0x5C # ''Harddisk0x'')))) \<and>
   \<not> Succeeded (NtPathToDiskPartComponents (L (CHR 0x5C # ''Device'' @ CHR 0x5C # ''Harddisk0x'')) True)"
  by (simp add: parse_eval)

text \<open>
  Claim C1, as the code has it: the parser succeeds exactly on the inputs that consist
  of the prefix in any letter case, one or more decimal digits, and a rest that is empty
  or starts with the terminator or with the separator.  So it fails for exactly three
  classes: prefix mismatch, no digit after the prefix, and a disk number followed by
  any other character.  Whatever comes after the separator never makes it fail.
\<close>

theorem parse_success_iff:
  "Succeeded (NtPathToDiskPartComponents NtPath w) \<longleftrightarrow>
     (\<exists>p ds r. NtPath = p @ ds @ r \<and>
        map towlower p = map towlower Harddisk_prefix \<and>
        ds \<noteq> [] \<and> (\<forall>d\<in>set ds. iswdigit d) \<and>
        (peek r = 0 \<or> peek r = OBJ_NAME_PATH_SEPARATOR))"
  (is "?lhs \<longleftrightarrow> ?rhs")
proof
  assume ?lhs
  then have m: "16 \<le> length NtPath"
      "map towlower (take 16 NtPath) = map towlower Harddisk_prefix"
    and d: "iswdigit (peek (drop 16 NtPath))"
    and e: "peek (dropWhile iswdigit (drop 16 NtPath)) = 0 \<or>
            peek (dropWhile iswdigit (drop 16 NtPath)) = OBJ_NAME_PATH_SEPARATOR"
    by (simp_all add: parse_success_exec prefix_match_iff)
  let ?p = "take 16 NtPath"
  let ?ds = "takeWhile iswdigit (drop 16 NtPath)"
  let ?r = "dropWhile iswdigit (drop 16 NtPath)"
  have "NtPath = ?p @ ?ds @ ?r" by simp
  moreover have "?ds \<noteq> []" using d by (cases "drop 16 NtPath") auto
  moreover have "\<forall>d\<in>set ?ds. iswdigit d" by (auto dest: set_takeWhileD)
  ultimately show ?rhs using m(2) e by blast
next
  assume ?rhs
  then obtain p ds r where s: "NtPath = p @ ds @ r"
    and p: "map towlower p = map towlower Harddisk_prefix"
    and ds: "ds \<noteq> []" "\<forall>d\<in>set ds. iswdigit d"
    and r: "peek r = 0 \<or> peek r = OBJ_NAME_PATH_SEPARATOR"
    by blast
  have lp: "length p = 16"
    using map_towlower_length [OF p] by (simp add: Harddisk_prefix_props)
  have nd: "\<not> iswdigit (peek r)" using r by auto
  have dw: "dropWhile iswdigit (ds @ r) = r"
    using ds(2) nd by (cases r) simp_all
  have "wcsnicmp NtPath Harddisk_prefix 16 = 0"
    using p lp by (simp add: s prefix_match_iff)
  moreover have "drop 16 NtPath = ds @ r" using lp by (simp add: s)
  moreover have "iswdigit (peek (ds @ r))" using ds by (cases ds) auto
  ultimately show ?lhs using r by (simp add: parse_success_exec dw)
qed

theorem parse_success_iff_witness:
  "Succeeded (NtPathToDiskPartComponents
     (L (CHR 0x5C # ''DEVICE'' @ CHR 0x5C # ''harddisk'') @ L ''12'' @ L (CHR 0x5C # ''x'')) True)"
proof -
  have "\<exists>p ds r. L (CHR 0x5C # ''DEVICE'' @ CHR 0x5C # ''harddisk'') @ L ''12'' @ L (CHR 0x5C # ''x'')
          = p @ ds @ r \<and>
        map towlower p = map towlower Harddisk_prefix \<and>
        ds \<noteq> [] \<and> (\<forall>d\<in>set ds. iswdigit d) \<and>
        (peek r = 0 \<or> peek r = OBJ_NAME_PATH_SEPARATOR)"
    by (intro exI [of _ "L (CHR 0x5C # ''DEVICE'' @ CHR 0x5C # ''harddisk'')"]
              exI [of _ "L ''12''"] exI [of _ "L (CHR 0x5C # ''x'')"])
       (simp add: L_def Harddisk_prefix_def towlower_def iswdigit_def)
  then show ?thesis
    using parse_success_iff
      [of "L (CHR 0x5C # ''DEVICE'' @ CHR 0x5C # ''harddisk'') @ L ''12'' @ L (CHR 0x5C # ''x'')" True]
    by blast
qed

text \<open>
  Claim C3.  Parsing \<^verbatim>\<open>\Device\Harddisk3\Partition\<close> (the \<^verbatim>\<open>\Partition\<close> literal present,
  no digits after it) should return success with disk number 3, partition number 0 and
  the remainder \<^verbatim>\<open>\Partition\<close>: the comment of line 201 says that this part of the path
  is then not a partition specifier, the header comment (line 137) makes the path
  component the beginning of the path, and the lenient exit of lines 189 to 194 returns
  an element that is not the literal as part of the remainder.

  The code does not: line 196 advances the pointer over the literal before line 199
  looks for a digit, and the advance is not undone on the way to \<^verbatim>\<open>Quit\<close>.  Evaluated,
  the call returns success, disk number 3 and partition number 0, but an empty
  remainder; \<^verbatim>\<open>\PartitionFoo\bar\<close> leaves \<^verbatim>\<open>Foo\bar\<close>, while \<^verbatim>\<open>\Partitio\<close>, which takes
  the other lenient exit, is kept whole.
\<close>

theorem parse_Partition_without_number:
  "NtPathToDiskPartComponents
      (L (CHR 0x5C # ''Device'' @ CHR 0x5C # ''Harddisk3'' @ CHR 0x5C # ''Partition'')) True
     = \<lparr>Succeeded = True, DiskNumber = 3, PartNumber = 0, PathComponent = Some []\<rparr> \<and>
   PathComponent (NtPathToDiskPartComponents
      (L (CHR 0x5C # ''Device'' @ CHR 0x5C # ''Harddisk3'' @ CHR 0x5C # ''Partition'')) True)
     \<noteq> Some (L (CHR 0x5C # ''Partition'')) \<and>
   PathComponent (NtPathToDiskPartComponents
      (L (CHR 0x5C # ''Device'' @ CHR 0x5C # ''Harddisk3'' @ CHR 0x5C # ''PartitionFoo'' @
          CHR 0x5C # ''bar'')) True)
     = Some (L (''Foo'' @ CHR 0x5C # ''bar'')) \<and>
   PathComponent (NtPathToDiskPartComponents
      (L (CHR 0x5C # ''Device'' @ CHR 0x5C # ''Harddisk3'' @ CHR 0x5C # ''Partitio'')) True)
     = Some (L (CHR 0x5C # ''Partitio''))"
  by (simp add: parse_eval)

text \<open>
  Claim C6.  When the prefix, a disk number, the \<^verbatim>\<open>\Partition\<close> literal and partition
  digits are followed by a character that is neither the terminator nor the separator
  (nor a further digit, which would belong to the number), the parser returns success,
  the partition number stays 0, and the remainder is the text after the partition
  digits, starting with that character.
\<close>

theorem partition_number_discarded:
  assumes p: "map towlower p = map towlower Harddisk_prefix"
    and ds1: "ds1 \<noteq> []" "\<forall>d\<in>set ds1. iswdigit d"
    and q: "map towlower q = map towlower Partition_literal"
    and ds2: "ds2 \<noteq> []" "\<forall>d\<in>set ds2. iswdigit d"
    and c: "c \<noteq> 0" "c \<noteq> OBJ_NAME_PATH_SEPARATOR" "\<not> iswdigit c"
  shows "NtPathToDiskPartComponents (p @ ds1 @ q @ ds2 @ c # rest) True =
           \<lparr>Succeeded = True, DiskNumber = fst (wcstoul ds1), PartNumber = 0,
            PathComponent = Some (c # rest)\<rparr>"
proof -
  let ?tail2 = "c # rest"
  let ?tail1 = "q @ ds2 @ ?tail2"
  have lp: "length p = 16" and lq: "length q = 10"
    using map_towlower_length [OF p] map_towlower_length [OF q]
    by (simp_all add: Harddisk_prefix_props Partition_literal_props)
  have q0: "peek q = OBJ_NAME_PATH_SEPARATOR"
  proof -
    from lq obtain a as where qa: "q = a # as" by (cases q) auto
    with q have "towlower a = OBJ_NAME_PATH_SEPARATOR"
      by (simp add: Partition_literal_eval towlower_def)
    then have "a = OBJ_NAME_PATH_SEPARATOR"
      by (auto simp: towlower_def split: if_splits)
    with qa show ?thesis by simp
  qed
  have q_ne: "q \<noteq> []" using lq by auto
  have step1: "wcsnicmp (p @ ds1 @ ?tail1) Harddisk_prefix 16 = 0"
    using p lp by (simp add: prefix_match_iff)
  have step2: "drop 16 (p @ ds1 @ ?tail1) = ds1 @ ?tail1"
    using lp by simp
  have step3: "iswdigit (peek (ds1 @ ?tail1))"
    using ds1 by (cases ds1) auto
  have step4: "wcstoul (ds1 @ ?tail1) = (fst (wcstoul ds1), ?tail1)"
    using ds1 q0 q_ne by (intro wcstoul_append) (simp_all add: peek_append)
  have step5: "peek ?tail1 = OBJ_NAME_PATH_SEPARATOR"
    using q0 q_ne by (simp add: peek_append)
  have step6: "wcsnicmp ?tail1 Partition_literal 10 = 0"
    using q lq by (simp add: partition_match_iff)
  have step7: "drop 10 ?tail1 = ds2 @ ?tail2"
    using lq by simp
  have step8: "iswdigit (peek (ds2 @ ?tail2))"
    using ds2 by (cases ds2) auto
  have step9: "wcstoul (ds2 @ ?tail2) = (fst (wcstoul ds2), ?tail2)"
    using ds2 c by (intro wcstoul_append) simp_all
  show ?thesis
    unfolding NtPathToDiskPartComponents_def
    using c by (simp add: step1 step2 step3 step4 step5 step6 step7 step8 step9 parse_quit_def del: drop_append append.simps)
qed

theorem partition_number_discarded_witness:
  "NtPathToDiskPartComponents
      (L (CHR 0x5C # ''Device'' @ CHR 0x5C # ''Harddisk1'' @ CHR 0x5C # ''Partition2x'' @ CHR 0x5C # ''foo'')) True
   = \<lparr>Succeeded = True, DiskNumber = 1, PartNumber = 0,
      PathComponent = Some (L (''x'' @ CHR 0x5C # ''foo''))\<rparr>"
  using partition_number_discarded
    [of "L (CHR 0x5C # ''Device'' @ CHR 0x5C # ''Harddisk'')" "L ''1''"
        "L (CHR 0x5C # ''Partition'')" "L ''2''" "0x78" "L (CHR 0x5C # ''foo'')"]
  by (simp add: L_def Harddisk_prefix_def Partition_literal_def towlower_def iswdigit_def
        wcstoul_def digit_value_def ULONG_MAX_def)

section \<open>The bounded string primitives\<close>

lemma cstr_simps [simp]:
  "cstr [] = []"
  "cstr (c # cs) = (if c = 0 then [] else c # cstr cs)"
  by (simp_all add: cstr_def)

lemma cstr_no_0 [simp]: "0 \<notin> set (cstr s)"
  by (auto simp: cstr_def dest: set_takeWhileD)

lemma length_cstr_le: "length (cstr s) \<le> length s"
  by (simp add: cstr_def length_takeWhile_le)

lemma cstr_idem [simp]: "cstr (cstr s) = cstr s"
  by (simp add: cstr_def)

lemma cstr_append_0: "0 \<notin> set xs \<Longrightarrow> cstr (xs @ 0 # ys) = xs"
  by (induction xs) auto

lemma cstr_eq_take: "cstr s = take (length (cstr s)) s"
  by (induction s) auto

lemma nth_cstr_end: "length (cstr s) < length s \<Longrightarrow> s ! length (cstr s) = 0"
  by (induction s) auto

lemma in_set_0_iff: "0 \<in> set s \<longleftrightarrow> length (cstr s) < length s"
  by (induction s) auto

lemma peek_cstr: "peek (cstr s) = peek s"
  by (cases s) auto

lemma peek_0_iff: "peek s = 0 \<longleftrightarrow> cstr s = []"
  by (cases s) auto

lemma wcslen_cstr: "wcslen s = (if 0 \<in> set s then Some (length (cstr s)) else None)"
  by (simp add: wcslen_def cstr_def)

lemma length_scan_found:
  "length (cstr buf) < n \<Longrightarrow> length (cstr buf) < length buf \<Longrightarrow>
   length_scan buf n = Some (n - length (cstr buf))"
proof (induction buf arbitrary: n)
  case Nil
  then show ?case by simp
next
  case (Cons c cs)
  then show ?case by (cases n) (auto split: if_splits)
qed

lemma length_scan_total:
  "n \<le> length buf \<Longrightarrow>
   \<exists>r. length_scan buf n = Some r \<and> r \<le> n \<and>
       (r \<noteq> 0 \<longrightarrow> n - r = length (cstr buf) \<and> length (cstr buf) < length buf)"
proof (induction buf arbitrary: n)
  case Nil
  then show ?case by simp
next
  case (Cons c cs)
  show ?case
  proof (cases "n \<noteq> 0 \<and> c \<noteq> 0")
    case True
    then obtain m where n: "n = Suc m" by (cases n) auto
    with Cons.prems have "m \<le> length cs" by simp
    from Cons.IH [OF this] True n show ?thesis by auto
  next
    case False
    then show ?thesis by auto
  qed
qed

lemma RtlStringLengthWorkerW_found:
  "length (cstr buf) < n \<Longrightarrow> length (cstr buf) < length buf \<Longrightarrow>
   RtlStringLengthWorkerW buf n = Some (STATUS_SUCCESS, length (cstr buf))"
  by (simp add: RtlStringLengthWorkerW_def length_scan_found)

lemma NT_SUCCESS_simps [simp]:
  "NT_SUCCESS STATUS_SUCCESS"
  "\<not> NT_SUCCESS STATUS_BUFFER_OVERFLOW"
  "\<not> NT_SUCCESS STATUS_INVALID_PARAMETER"
  by (simp_all add: NT_SUCCESS_def STATUS_SUCCESS_def STATUS_BUFFER_OVERFLOW_def
        STATUS_INVALID_PARAMETER_def)

lemma RtlStringLengthWorkerW_total:
  assumes "n \<le> length buf"
  shows "\<exists>st len. RtlStringLengthWorkerW buf n = Some (st, len) \<and>
           (NT_SUCCESS st \<longrightarrow> len = length (cstr buf) \<and> len < n \<and> len < length buf)"
proof -
  from length_scan_total [OF assms] obtain r where
    r: "length_scan buf n = Some r" "r \<le> n"
       "r \<noteq> 0 \<longrightarrow> n - r = length (cstr buf) \<and> length (cstr buf) < length buf"
    by blast
  show ?thesis
  proof (cases "r = 0")
    case True
    with r show ?thesis by (simp add: RtlStringLengthWorkerW_def)
  next
    case False
    with r have len: "n - r = length (cstr buf)" "length (cstr buf) < length buf"
      by simp_all
    from False r(2) have "n - r < n" by arith
    with len have "length (cstr buf) < n" by simp
    with False r(1) len show ?thesis by (simp add: RtlStringLengthWorkerW_def)
  qed
qed

lemma copy_loop_result:
  "pos + n \<le> length buf \<Longrightarrow>
   copy_loop buf pos n src =
     Some (take pos buf @ take n (cstr src) @ drop (pos + min n (length (cstr src))) buf,
           pos + min n (length (cstr src)), n - min n (length (cstr src)))"
proof (induction n arbitrary: buf pos src)
  case 0
  then show ?case by simp
next
  case (Suc n)
  show ?case
  proof (cases "peek src = 0")
    case True
    then have "cstr src = []" by (simp add: peek_0_iff)
    with True show ?thesis by simp
  next
    case False
    then obtain c cs where src: "src = c # cs" and c: "c \<noteq> 0"
      by (cases src) auto
    from Suc.prems have pos: "pos < length buf" by simp
    have "Suc pos + n \<le> length (buf[pos := c])" using Suc.prems by simp
    note IH = Suc.IH [OF this, of cs]
    have t: "take (Suc pos) (buf[pos := c]) = take pos buf @ [c]"
      using pos by (simp add: take_Suc_conv_app_nth)
    show ?thesis
      using pos c by (simp add: src IH t)
  qed
qed

lemma RtlStringCopyWorkerW_result:
  assumes "pos + cchDest \<le> length buf" "0 < cchDest"
  shows "RtlStringCopyWorkerW buf pos cchDest src =
           Some (if length (cstr src) < cchDest then STATUS_SUCCESS else STATUS_BUFFER_OVERFLOW,
                 take pos buf @ take (cchDest - 1) (cstr src) @
                 0 # drop (pos + min (cchDest - 1) (length (cstr src)) + 1) buf)"
proof (cases "length (cstr src) < cchDest")
  case True
  let ?m = "length (cstr src)"
  let ?b = "take pos buf @ cstr src @ drop (pos + ?m) buf"
  have cl: "copy_loop buf pos cchDest src = Some (?b, pos + ?m, cchDest - ?m)"
    using True assms by (simp add: copy_loop_result min_def)
  have lb: "length ?b = length buf" using True assms by simp
  have upd: "?b[pos + ?m := 0] = take pos buf @ cstr src @ 0 # drop (pos + ?m + 1) buf"
  proof -
    have "drop (pos + ?m) buf = buf ! (pos + ?m) # drop (pos + ?m + 1) buf"
      using True assms by (simp add: Cons_nth_drop_Suc)
    moreover have "length (take pos buf @ cstr src) = pos + ?m"
      using assms by simp
    ultimately show ?thesis
      by (metis (no_types, lifting) append.assoc list_update_length)
  qed
  have m: "min (cchDest - 1) ?m = ?m" "take (cchDest - 1) (cstr src) = cstr src"
    using True by simp_all
  have "cchDest - ?m \<noteq> 0" "pos + ?m < length buf" using True assms by simp_all
  then show ?thesis
    using True assms(2) by (simp add: RtlStringCopyWorkerW_def cl lb upd m)
next
  case False
  let ?m = "length (cstr src)"
  let ?b = "take pos buf @ take cchDest (cstr src) @ drop (pos + cchDest) buf"
  have cl: "copy_loop buf pos cchDest src = Some (?b, pos + cchDest, 0)"
    using False assms by (simp add: copy_loop_result min_def)
  have lb: "length ?b = length buf" using False assms by simp
  obtain k where k: "cchDest = Suc k" using assms(2) by (cases cchDest) auto
  have tk: "take (Suc k) (cstr src) = take k (cstr src) @ [cstr src ! k]"
    using False k by (simp add: take_Suc_conv_app_nth)
  have upd: "?b[pos + cchDest - 1 := 0] =
               take pos buf @ take (cchDest - 1) (cstr src) @ 0 # drop (pos + cchDest) buf"
  proof -
    have "length (take pos buf @ take k (cstr src)) = pos + k"
      using False k assms by simp
    then have "((take pos buf @ take k (cstr src)) @ cstr src ! k # drop (pos + Suc k) buf)[pos + k := 0]
                 = (take pos buf @ take k (cstr src)) @ 0 # drop (pos + Suc k) buf"
      by (metis list_update_length)
    then show ?thesis by (simp add: k tk)
  qed
  have m: "min (cchDest - 1) ?m = cchDest - 1" using False by simp
  have "pos + cchDest - 1 < length buf" "pos + (cchDest - 1) + 1 = pos + cchDest"
    using assms by simp_all
  then show ?thesis
    using False assms(2) upd by (simp add: RtlStringCopyWorkerW_def cl lb m)
qed

lemma RtlStringCchCatW_result:
  assumes "length (cstr buf) < cap" "cap \<le> length buf" "cap \<le> NTSTRSAFE_MAX_CCH"
  shows "RtlStringCchCatW buf cap src =
           Some (if length (cstr buf) + length (cstr src) < cap
                 then STATUS_SUCCESS else STATUS_BUFFER_OVERFLOW,
                 cstr buf @ take (cap - length (cstr buf) - 1) (cstr src) @
                 0 # drop (length (cstr buf) +
                           min (cap - length (cstr buf) - 1) (length (cstr src)) + 1) buf)"
proof -
  let ?n = "length (cstr buf)"
  have len: "RtlStringLengthWorkerW buf cap = Some (STATUS_SUCCESS, ?n)"
    using assms by (intro RtlStringLengthWorkerW_found) simp_all
  have copy: "RtlStringCopyWorkerW buf ?n (cap - ?n) src =
           Some (if length (cstr src) < cap - ?n then STATUS_SUCCESS else STATUS_BUFFER_OVERFLOW,
                 take ?n buf @ take (cap - ?n - 1) (cstr src) @
                 0 # drop (?n + min (cap - ?n - 1) (length (cstr src)) + 1) buf)"
    using assms by (intro RtlStringCopyWorkerW_result) simp_all
  have st: "length (cstr src) < cap - ?n \<longleftrightarrow> ?n + length (cstr src) < cap"
    using assms by arith
  show ?thesis
    using assms(3)
    by (simp add: RtlStringCchCatW_def RtlStringCatWorkerW_def len copy st
          cstr_eq_take [symmetric])
qed

lemma RtlStringCchCatW_cstr:
  assumes "length (cstr buf) < cap" "cap \<le> length buf" "cap \<le> NTSTRSAFE_MAX_CCH"
  shows "\<exists>buf'. RtlStringCchCatW buf cap src =
           Some (if length (cstr buf) + length (cstr src) < cap
                 then STATUS_SUCCESS else STATUS_BUFFER_OVERFLOW, buf') \<and>
           cstr buf' = cstr buf @ take (cap - length (cstr buf) - 1) (cstr src) \<and>
           length buf' = length buf"
proof -
  let ?n = "length (cstr buf)"
  let ?k = "min (cap - ?n - 1) (length (cstr src))"
  let ?b = "cstr buf @ take (cap - ?n - 1) (cstr src) @ 0 # drop (?n + ?k + 1) buf"
  have "0 \<notin> set (cstr buf @ take (cap - ?n - 1) (cstr src))"
    by (auto dest: in_set_takeD)
  then have "cstr ((cstr buf @ take (cap - ?n - 1) (cstr src)) @ 0 # drop (?n + ?k + 1) buf)
               = cstr buf @ take (cap - ?n - 1) (cstr src)"
    by (rule cstr_append_0)
  then have c: "cstr ?b = cstr buf @ take (cap - ?n - 1) (cstr src)" by simp
  have "?n + ?k + 1 \<le> length buf" using assms by simp
  then have l: "length ?b = length buf" by simp
  show ?thesis
    using RtlStringCchCatW_result [OF assms, of src] c l by blast
qed

lemma RtlStringCchCatW_frame:
  assumes "cap \<le> length buf"
  shows "\<exists>st buf'. RtlStringCchCatW buf cap src = Some (st, buf') \<and>
           length buf' = length buf \<and> drop cap buf' = drop cap buf \<and>
           (0 \<in> set buf \<longrightarrow> 0 \<in> set buf')"
proof (cases "cap \<le> NTSTRSAFE_MAX_CCH \<and> length (cstr buf) < cap")
  case True
  let ?n = "length (cstr buf)"
  let ?k = "min (cap - ?n - 1) (length (cstr src))"
  let ?h = "cstr buf @ take (cap - ?n - 1) (cstr src)"
  let ?b = "?h @ 0 # drop (?n + ?k + 1) buf"
  have r: "RtlStringCchCatW buf cap src =
      Some (if ?n + length (cstr src) < cap then STATUS_SUCCESS else STATUS_BUFFER_OVERFLOW, ?b)"
    using RtlStringCchCatW_result [of buf cap src] True assms by simp
  have h: "length ?h = ?n + ?k" by simp
  have le: "?n + ?k + 1 \<le> cap" using True by arith
  then have l: "length ?b = length buf" using assms by simp
  have "drop cap ?b = drop (cap - (?n + ?k)) (0 # drop (?n + ?k + 1) buf)"
    using le h by simp
  also have "\<dots> = drop (cap - (?n + ?k) - 1) (drop (?n + ?k + 1) buf)"
    using le by (cases "cap - (?n + ?k)") simp_all
  also have "\<dots> = drop cap buf"
    using le by simp
  finally have d: "drop cap ?b = drop cap buf" .
  have z: "0 \<in> set ?b" by simp
  show ?thesis using r l d z by blast
next
  case False
  show ?thesis
  proof (cases "NTSTRSAFE_MAX_CCH < cap")
    case True
    then show ?thesis by (simp add: RtlStringCchCatW_def)
  next
    case max: False
    with False have n: "\<not> length (cstr buf) < cap" by simp
    from RtlStringLengthWorkerW_total [OF assms] obtain st len where
      w: "RtlStringLengthWorkerW buf cap = Some (st, len)"
         "NT_SUCCESS st \<longrightarrow> len = length (cstr buf) \<and> len < cap \<and> len < length buf"
      by blast
    with n have "\<not> NT_SUCCESS st" by auto
    with w max show ?thesis
      by (simp add: RtlStringCchCatW_def RtlStringCatWorkerW_def)
  qed
qed

lemma RtlStringCchCatW_invalid:
  assumes "cap \<le> length buf" "NTSTRSAFE_MAX_CCH < cap \<or> \<not> length (cstr buf) < cap"
  shows "RtlStringCchCatW buf cap src = Some (STATUS_INVALID_PARAMETER, buf)"
proof (cases "NTSTRSAFE_MAX_CCH < cap")
  case True
  then show ?thesis by (simp add: RtlStringCchCatW_def)
next
  case False
  with assms(2) have n: "\<not> length (cstr buf) < cap" by simp
  from length_scan_total [OF assms(1)] obtain r where
    r: "length_scan buf cap = Some r" "r \<le> cap"
       "r \<noteq> 0 \<longrightarrow> cap - r = length (cstr buf) \<and> length (cstr buf) < length buf"
    by blast
  have "r = 0"
  proof (rule ccontr)
    assume "r \<noteq> 0"
    with r have "cap - r = length (cstr buf)" "cap - r < cap" by auto
    with n show False by simp
  qed
  with r(1) False show ?thesis
    by (simp add: RtlStringCchCatW_def RtlStringCatWorkerW_def RtlStringLengthWorkerW_def)
qed

lemma RtlStringCchCopyW_frame:
  assumes "0 < cap" "cap \<le> length buf" "cap \<le> NTSTRSAFE_MAX_CCH"
  shows "\<exists>st buf'. RtlStringCchCopyW buf cap src = Some (st, buf') \<and>
           length buf' = length buf \<and> 0 \<in> set buf'"
proof -
  let ?k = "min (cap - 1) (length (cstr src))"
  have "?k + 1 \<le> length buf" using assms by simp
  then have "length (take (cap - 1) (cstr src) @ 0 # drop (?k + 1) buf) = length buf"
    by simp
  then show ?thesis
    using RtlStringCopyWorkerW_result [of 0 cap buf src] assms
    by (simp add: RtlStringCchCopyW_def)
qed

section \<open>ConcatPaths\<close>

lemma nth_last_cstr:
  assumes "cstr buf \<noteq> []"
  shows "buf ! (length (cstr buf) - 1) = last (cstr buf)"
proof -
  have "last (cstr buf) = cstr buf ! (length (cstr buf) - 1)"
    using assms by (rule last_conv_nth)
  also have "\<dots> = take (length (cstr buf)) buf ! (length (cstr buf) - 1)"
    using cstr_eq_take [of buf] by simp
  also have "\<dots> = buf ! (length (cstr buf) - 1)"
    using assms by simp
  finally show ?thesis by simp
qed

lemma cstr_dropWhile:
  "cstr (dropWhile (\<lambda>c. c = OBJ_NAME_PATH_SEPARATOR) a) =
   dropWhile (\<lambda>c. c = OBJ_NAME_PATH_SEPARATOR) (cstr a)"
  by (induction a) auto

lemma ConcatPaths_cases [consumes 2, case_names sep skip asis]:
  assumes "\<not> cap \<le> 1" "0 \<in> set buf"
  obtains
    "peek a \<noteq> OBJ_NAME_PATH_SEPARATOR" "0 < min cap (length (cstr buf))"
    "buf ! (min cap (length (cstr buf)) - 1) \<noteq> OBJ_NAME_PATH_SEPARATOR"
    "ConcatPaths buf cap (Some a) =
       (case RtlStringCchCatW buf cap [OBJ_NAME_PATH_SEPARATOR] of
          None \<Rightarrow> None
        | Some (Status, b) \<Rightarrow>
            if \<not> NT_SUCCESS Status then Some (Status, b) else RtlStringCchCatW b cap a)"
  | "peek a = OBJ_NAME_PATH_SEPARATOR" "0 < min cap (length (cstr buf))"
    "buf ! (min cap (length (cstr buf)) - 1) = OBJ_NAME_PATH_SEPARATOR"
    "ConcatPaths buf cap (Some a) =
       RtlStringCchCatW buf cap (dropWhile (\<lambda>c. c = OBJ_NAME_PATH_SEPARATOR) a)"
  | "min cap (length (cstr buf)) = 0 \<or>
       (peek a = OBJ_NAME_PATH_SEPARATOR) \<noteq>
       (buf ! (min cap (length (cstr buf)) - 1) = OBJ_NAME_PATH_SEPARATOR)"
    "ConcatPaths buf cap (Some a) = RtlStringCchCatW buf cap a"
proof -
  define len where "len = min cap (length (cstr buf))"
  define c1 where "c1 \<longleftrightarrow> peek a \<noteq> OBJ_NAME_PATH_SEPARATOR \<and> 0 < len \<and>
                      buf ! (len - 1) \<noteq> OBJ_NAME_PATH_SEPARATOR"
  define c2 where "c2 \<longleftrightarrow> peek a = OBJ_NAME_PATH_SEPARATOR \<and> 0 < len \<and>
                      buf ! (len - 1) = OBJ_NAME_PATH_SEPARATOR"
  have w: "wcslen buf = Some (length (cstr buf))"
    using assms(2) by (simp add: wcslen_cstr)
  have C: "ConcatPaths buf cap (Some a) =
      (if c1 then
         (case RtlStringCchCatW buf cap [OBJ_NAME_PATH_SEPARATOR] of
            None \<Rightarrow> None
          | Some (Status, b) \<Rightarrow>
              if \<not> NT_SUCCESS Status then Some (Status, b) else RtlStringCchCatW b cap a)
       else if c2 then
         RtlStringCchCatW buf cap (dropWhile (\<lambda>c. c = OBJ_NAME_PATH_SEPARATOR) a)
       else RtlStringCchCatW buf cap a)"
    unfolding ConcatPaths_def c1_def c2_def len_def
    using assms(1) by (simp add: w Let_def)
  show ?thesis
  proof (cases c1)
    case True
    with C that(1) show ?thesis by (simp add: c1_def len_def)
  next
    case n1: False
    show ?thesis
    proof (cases c2)
      case True
      with n1 C that(2) show ?thesis by (simp add: c2_def len_def)
    next
      case False
      with n1 have "len = 0 \<or> (peek a = OBJ_NAME_PATH_SEPARATOR) \<noteq>
                      (buf ! (len - 1) = OBJ_NAME_PATH_SEPARATOR)"
        unfolding c1_def c2_def by auto
      with n1 False C that(3) show ?thesis by (simp add: len_def)
    qed
  qed
qed

text \<open>
  Every call leaves the cells from the declared capacity on as they were, and never
  accesses a cell outside the array.
\<close>

lemma ConcatPaths_frame:
  assumes "cap \<le> length buf" "0 \<in> set buf"
  shows "\<exists>st buf'. ConcatPaths buf cap add = Some (st, buf') \<and>
           length buf' = length buf \<and> drop cap buf' = drop cap buf \<and> 0 \<in> set buf'"
proof -
  have one: "\<exists>st buf'. RtlStringCchCatW b cap src = Some (st, buf') \<and>
           length buf' = length buf \<and> drop cap buf' = drop cap buf \<and> 0 \<in> set buf'"
    if "length b = length buf" "drop cap b = drop cap buf" "0 \<in> set b" for b src
    using RtlStringCchCatW_frame [of cap b src] that assms(1) by auto
  show ?thesis
  proof (cases add)
    case None
    with assms show ?thesis by (simp add: ConcatPaths_def)
  next
    case (Some a)
    show ?thesis
    proof (cases "cap \<le> 1")
      case True
      with Some assms show ?thesis by (simp add: ConcatPaths_def)
    next
      case False
      from False assms(2) show ?thesis
      proof (cases rule: ConcatPaths_cases [where a = a])
        case sep
        from one [of buf "[OBJ_NAME_PATH_SEPARATOR]"] assms obtain st1 b1 where
          c1: "RtlStringCchCatW buf cap [OBJ_NAME_PATH_SEPARATOR] = Some (st1, b1)"
          and b1: "length b1 = length buf" "drop cap b1 = drop cap buf" "0 \<in> set b1"
          by auto
        have C: "ConcatPaths buf cap add =
                   (if \<not> NT_SUCCESS st1 then Some (st1, b1) else RtlStringCchCatW b1 cap a)"
          using Some sep(4) by (simp add: c1)
        show ?thesis
        proof (cases "NT_SUCCESS st1")
          case True
          with C one [OF b1, of a] show ?thesis by simp
        next
          case False
          with C b1 show ?thesis by simp
        qed
      next
        case skip
        with Some one [of buf] assms show ?thesis by simp
      next
        case asis
        with Some one [of buf] assms show ?thesis by simp
      qed
    qed
  qed
qed

text \<open>
  With a capacity above 1 and a base that fits, \<open>ConcatPaths\<close> computes the join of the
  specification when it fits, and reports \<^verbatim>\<open>STATUS_BUFFER_OVERFLOW\<close> when it does not.
\<close>

lemma ConcatPaths_spec_join:
  assumes cap: "1 < cap" "cap \<le> length buf" "cap \<le> NTSTRSAFE_MAX_CCH"
    and wf: "length (cstr buf) < cap"
  shows "\<exists>buf'. ConcatPaths buf cap (Some a) =
           Some (if length (spec_join (cstr buf) (cstr a)) < cap
                 then STATUS_SUCCESS else STATUS_BUFFER_OVERFLOW, buf') \<and>
           length buf' = length buf \<and>
           (length (spec_join (cstr buf) (cstr a)) < cap \<longrightarrow>
              cstr buf' = spec_join (cstr buf) (cstr a))"
proof -
  let ?n = "length (cstr buf)"
  let ?SEP = "OBJ_NAME_PATH_SEPARATOR"
  have z: "0 \<in> set buf" using wf cap(2) by (simp add: in_set_0_iff)
  have mn: "min cap ?n = ?n" using wf by simp
  have nc: "\<not> cap \<le> 1" using cap(1) by simp
  from nc z show ?thesis
  proof (cases rule: ConcatPaths_cases [where a = a])
    case sep
    from sep(2) have ne: "cstr buf \<noteq> []" by (simp add: mn)
    with sep(3) nth_last_cstr [of buf] have last: "last (cstr buf) \<noteq> ?SEP"
      by (simp add: mn)
    have j: "spec_join (cstr buf) (cstr a) = cstr buf @ [?SEP] @ cstr a"
      using sep(1) ne last by (simp add: spec_join_def peek_cstr)
    from RtlStringCchCatW_cstr [OF wf cap(2,3), of "[?SEP]"] obtain b1 where
      c1: "RtlStringCchCatW buf cap [?SEP] =
             Some (if ?n + 1 < cap then STATUS_SUCCESS else STATUS_BUFFER_OVERFLOW, b1)"
      and s1: "cstr b1 = cstr buf @ take (cap - ?n - 1) [?SEP]"
      and l1: "length b1 = length buf"
      by auto
    show ?thesis
    proof (cases "?n + 1 < cap")
      case True
      then have "take (cap - ?n - 1) [?SEP] = [?SEP]" by (cases "cap - ?n - 1") simp_all
      with s1 have s1': "cstr b1 = cstr buf @ [?SEP]" by simp
      then have n1: "length (cstr b1) = ?n + 1" by simp
      have wf1: "length (cstr b1) < cap" using True n1 by simp
      have cap1: "cap \<le> length b1" using cap(2) l1 by simp
      from RtlStringCchCatW_cstr [OF wf1 cap1 cap(3), of a] obtain b2 where
        c2: "RtlStringCchCatW b1 cap a =
               Some (if ?n + 1 + length (cstr a) < cap
                     then STATUS_SUCCESS else STATUS_BUFFER_OVERFLOW, b2)"
        and s2: "cstr b2 = cstr b1 @ take (cap - (?n + 1) - 1) (cstr a)"
        and l2: "length b2 = length b1"
        by (auto simp: n1)
      have "ConcatPaths buf cap (Some a) = RtlStringCchCatW b1 cap a"
        using sep(4) True by (simp add: c1)
      then show ?thesis
        using c2 s2 l2 l1 by (auto simp: j s1')
    next
      case False
      have "ConcatPaths buf cap (Some a) = Some (STATUS_BUFFER_OVERFLOW, b1)"
        using sep(4) False by (simp add: c1)
      then show ?thesis using False l1 by (simp add: j)
    qed
  next
    case skip
    from skip(2) have ne: "cstr buf \<noteq> []" by (simp add: mn)
    with skip(3) nth_last_cstr [of buf] have last: "last (cstr buf) = ?SEP"
      by (simp add: mn)
    let ?a' = "dropWhile (\<lambda>c. c = ?SEP) a"
    have j: "spec_join (cstr buf) (cstr a) = cstr buf @ cstr ?a'"
      using skip(1) ne last by (simp add: spec_join_def peek_cstr cstr_dropWhile)
    from RtlStringCchCatW_cstr [OF wf cap(2,3), of ?a'] obtain b1 where
      c1: "RtlStringCchCatW buf cap ?a' =
             Some (if ?n + length (cstr ?a') < cap
                   then STATUS_SUCCESS else STATUS_BUFFER_OVERFLOW, b1)"
      and s1: "cstr b1 = cstr buf @ take (cap - ?n - 1) (cstr ?a')"
      and l1: "length b1 = length buf"
      by auto
    show ?thesis
      using skip(4) c1 s1 l1 by (auto simp: j)
  next
    case asis
    have j: "spec_join (cstr buf) (cstr a) = cstr buf @ cstr a"
    proof (cases "cstr buf = []")
      case True
      then show ?thesis by (simp add: spec_join_def)
    next
      case False
      with asis(1) nth_last_cstr [of buf]
      have "(peek a = ?SEP) \<noteq> (last (cstr buf) = ?SEP)"
        by (simp add: mn)
      then show ?thesis by (auto simp: spec_join_def peek_cstr)
    qed
    from RtlStringCchCatW_cstr [OF wf cap(2,3), of a] obtain b1 where
      c1: "RtlStringCchCatW buf cap a =
             Some (if ?n + length (cstr a) < cap
                   then STATUS_SUCCESS else STATUS_BUFFER_OVERFLOW, b1)"
      and s1: "cstr b1 = cstr buf @ take (cap - ?n - 1) (cstr a)"
      and l1: "length b1 = length buf"
      by auto
    show ?thesis
      using asis(2) c1 s1 l1 by (auto simp: j)
  qed
qed

lemma ConcatPaths_invalid:
  assumes "1 < cap" "cap \<le> length buf" "0 \<in> set buf"
    and "NTSTRSAFE_MAX_CCH < cap \<or> \<not> length (cstr buf) < cap"
  shows "ConcatPaths buf cap (Some a) = Some (STATUS_INVALID_PARAMETER, buf)"
proof -
  have nc: "\<not> cap \<le> 1" using assms(1) by simp
  note inv = RtlStringCchCatW_invalid [OF assms(2,4)]
  from nc assms(3) show ?thesis
    by (cases rule: ConcatPaths_cases [where a = a]) (simp_all add: inv)
qed

text \<open>
  Claim C4.  The claim reads: for every base buffer and every addition, the join never
  writes past the declared capacity, and when the concatenation would exceed the
  capacity it returns a length-exceeded error status rather than success.

  Lines 27 and 28 return \<^verbatim>\<open>STATUS_SUCCESS\<close> at once when the capacity is at most 1.  With
  an empty base in a buffer of capacity 1 and the addition \<^verbatim>\<open>b\<close>, the concatenation
  needs two cells, exceeds the capacity, and the call reports success.
\<close>

theorem ConcatPaths_capacity_one:
  "ConcatPaths [0] 1 (Some (L ''b'')) = Some (STATUS_SUCCESS, [0]) \<and>
   NT_SUCCESS STATUS_SUCCESS \<and>
   \<not> length (spec_join (cstr [0]) (cstr (L ''b''))) < 1"
  by (simp add: ConcatPaths_def spec_join_def L_def)

text \<open>
  Claim C4, as the code has it.  When the capacity is at most 1, or the addition is
  absent, the call is a no-op that reports \<^verbatim>\<open>STATUS_SUCCESS\<close> and leaves the buffer as it
  is, whatever the addition.  Let the buffer hold a terminator and let the declared
  capacity not exceed the array.  Then for every addition, of any length, the call
  returns, leaves the length of the array and every cell from the capacity on
  unchanged, and accesses no cell outside the array.  With a capacity greater than 1
  the status is \<^verbatim>\<open>STATUS_INVALID_PARAMETER\<close>, with the buffer unchanged, when the
  capacity exceeds \<^verbatim>\<open>NTSTRSAFE_MAX_CCH\<close> or the base has no terminator within the
  capacity; otherwise it is \<^verbatim>\<open>STATUS_SUCCESS\<close>, the buffer holding the join, when the join
  fits the capacity, and \<^verbatim>\<open>STATUS_BUFFER_OVERFLOW\<close> when it does not.  So with a capacity
  greater than 1 a concatenation that would exceed the capacity never reports
  success.
\<close>

theorem ConcatPaths_bounded:
  "(cchPathSize \<le> 1 \<or> PathElem2 = None \<longrightarrow>
      ConcatPaths buf cchPathSize PathElem2 = Some (STATUS_SUCCESS, buf)) \<and>
   (cchPathSize \<le> length buf \<and> 0 \<in> set buf \<longrightarrow>
      (\<exists>st buf'. ConcatPaths buf cchPathSize PathElem2 = Some (st, buf') \<and>
         length buf' = length buf \<and> drop cchPathSize buf' = drop cchPathSize buf \<and>
         (\<forall>a. PathElem2 = Some a \<and> 1 < cchPathSize \<longrightarrow>
            (if NTSTRSAFE_MAX_CCH < cchPathSize \<or> \<not> length (cstr buf) < cchPathSize
             then st = STATUS_INVALID_PARAMETER \<and> buf' = buf
             else if length (spec_join (cstr buf) (cstr a)) < cchPathSize
             then st = STATUS_SUCCESS \<and> cstr buf' = spec_join (cstr buf) (cstr a)
             else st = STATUS_BUFFER_OVERFLOW) \<and>
            (\<not> length (spec_join (cstr buf) (cstr a)) < cchPathSize \<longrightarrow> \<not> NT_SUCCESS st))))"
proof (intro conjI impI)
  assume "cchPathSize \<le> 1 \<or> PathElem2 = None"
  then show "ConcatPaths buf cchPathSize PathElem2 = Some (STATUS_SUCCESS, buf)"
    by (auto simp: ConcatPaths_def split: option.splits)
next
  assume "cchPathSize \<le> length buf \<and> 0 \<in> set buf"
  then have b: "cchPathSize \<le> length buf" "0 \<in> set buf" by simp_all
  from ConcatPaths_frame [OF b, of PathElem2] obtain st buf' where
    r: "ConcatPaths buf cchPathSize PathElem2 = Some (st, buf')"
       "length buf' = length buf" "drop cchPathSize buf' = drop cchPathSize buf"
    by blast
  have "(if NTSTRSAFE_MAX_CCH < cchPathSize \<or> \<not> length (cstr buf) < cchPathSize
         then st = STATUS_INVALID_PARAMETER \<and> buf' = buf
         else if length (spec_join (cstr buf) (cstr a)) < cchPathSize
         then st = STATUS_SUCCESS \<and> cstr buf' = spec_join (cstr buf) (cstr a)
         else st = STATUS_BUFFER_OVERFLOW) \<and>
        (\<not> length (spec_join (cstr buf) (cstr a)) < cchPathSize \<longrightarrow> \<not> NT_SUCCESS st)"
    if a: "PathElem2 = Some a" "1 < cchPathSize" for a
  proof (cases "NTSTRSAFE_MAX_CCH < cchPathSize \<or> \<not> length (cstr buf) < cchPathSize")
    case True
    from ConcatPaths_invalid [OF a(2) b True, of a] a(1) r(1) True
    show ?thesis by auto
  next
    case False
    then have wf: "cchPathSize \<le> NTSTRSAFE_MAX_CCH" "length (cstr buf) < cchPathSize"
      by simp_all
    from ConcatPaths_spec_join [OF a(2) b(1) wf, of a] a(1) r(1) False
    show ?thesis by auto
  qed
  with r show "\<exists>st buf'. ConcatPaths buf cchPathSize PathElem2 = Some (st, buf') \<and>
         length buf' = length buf \<and> drop cchPathSize buf' = drop cchPathSize buf \<and>
         (\<forall>a. PathElem2 = Some a \<and> 1 < cchPathSize \<longrightarrow>
            (if NTSTRSAFE_MAX_CCH < cchPathSize \<or> \<not> length (cstr buf) < cchPathSize
             then st = STATUS_INVALID_PARAMETER \<and> buf' = buf
             else if length (spec_join (cstr buf) (cstr a)) < cchPathSize
             then st = STATUS_SUCCESS \<and> cstr buf' = spec_join (cstr buf) (cstr a)
             else st = STATUS_BUFFER_OVERFLOW) \<and>
            (\<not> length (spec_join (cstr buf) (cstr a)) < cchPathSize \<longrightarrow> \<not> NT_SUCCESS st))"
    by blast
qed

theorem ConcatPaths_bounded_witness:
  "ConcatPaths [0] 1 (Some (L ''b'')) = Some (STATUS_SUCCESS, [0]) \<and>
   (\<exists>buf'. ConcatPaths [0x61, 0, 0x7A, 0x7A, 0x7A] 4 (Some (L ''bcd'')) =
              Some (STATUS_BUFFER_OVERFLOW, buf') \<and> drop 4 buf' = [0x7A]) \<and>
   ConcatPaths [0x61, 0x62, 0] 2 (Some (L ''c'')) =
     Some (STATUS_INVALID_PARAMETER, [0x61, 0x62, 0]) \<and>
   (\<exists>buf'. ConcatPaths [0x61, 0, 0x7A, 0x7A, 0x7A] 4 (Some (L ''b'')) =
              Some (STATUS_SUCCESS, buf') \<and> cstr buf' = [0x61, 0x5C, 0x62] \<and>
              drop 4 buf' = [0x7A])"
  using ConcatPaths_bounded [of 1 "Some (L ''b'')" "[0]"]
    ConcatPaths_bounded [of 4 "Some (L ''bcd'')" "[0x61, 0, 0x7A, 0x7A, 0x7A]"]
    ConcatPaths_bounded [of 2 "Some (L ''c'')" "[0x61, 0x62, 0]"]
    ConcatPaths_bounded [of 4 "Some (L ''b'')" "[0x61, 0, 0x7A, 0x7A, 0x7A]"]
  by (auto simp: spec_join_def L_def NTSTRSAFE_MAX_CCH_def)

text \<open>
  Claim C7.  Given sufficient capacity (four cells or more, within
  \<^verbatim>\<open>NTSTRSAFE_MAX_CCH\<close>), joining \<^verbatim>\<open>b\<close> to \<^verbatim>\<open>a\<close> yields \<^verbatim>\<open>a\b\<close> (a separator is put in
  between), joining \<^verbatim>\<open>\b\<close> to \<^verbatim>\<open>a\\<close> yields \<^verbatim>\<open>a\b\<close> (the leading separator of the
  addition is skipped), and joining \<^verbatim>\<open>b\<close> to \<^verbatim>\<open>a\\<close> yields \<^verbatim>\<open>a\b\<close> (concatenation as
  it is).
\<close>

theorem ConcatPaths_examples:
  assumes "4 \<le> cap" "cap \<le> length buf" "cap \<le> NTSTRSAFE_MAX_CCH"
  shows
    "(cstr buf = L ''a'' \<longrightarrow>
        (\<exists>buf'. ConcatPaths buf cap (Some (L ''b'')) = Some (STATUS_SUCCESS, buf') \<and>
                cstr buf' = L (''a'' @ CHR 0x5C # ''b''))) \<and>
     (cstr buf = L (''a'' @ [CHR 0x5C]) \<longrightarrow>
        (\<exists>buf'. ConcatPaths buf cap (Some (L (CHR 0x5C # ''b''))) = Some (STATUS_SUCCESS, buf') \<and>
                cstr buf' = L (''a'' @ CHR 0x5C # ''b''))) \<and>
     (cstr buf = L (''a'' @ [CHR 0x5C]) \<longrightarrow>
        (\<exists>buf'. ConcatPaths buf cap (Some (L ''b'')) = Some (STATUS_SUCCESS, buf') \<and>
                cstr buf' = L (''a'' @ CHR 0x5C # ''b'')))"
proof -
  have cap1: "1 < cap" using assms(1) by simp
  have go: "\<exists>buf'. ConcatPaths buf cap (Some a) = Some (STATUS_SUCCESS, buf') \<and> cstr buf' = res"
    if "spec_join (cstr buf) (cstr a) = res" "length res < cap" "length (cstr buf) < cap" for a res
    using ConcatPaths_spec_join [OF cap1 assms(2,3) that(3), of a] that(1,2) by auto
  show ?thesis
    using assms(1)
    by (intro conjI impI go) (simp_all add: spec_join_def L_def)
qed

theorem ConcatPaths_examples_witness:
  "(\<exists>buf'. ConcatPaths [0x61, 0, 0, 0] 4 (Some (L ''b'')) = Some (STATUS_SUCCESS, buf') \<and>
            cstr buf' = L (''a'' @ CHR 0x5C # ''b'')) \<and>
   (\<exists>buf'. ConcatPaths [0x61, 0x5C, 0, 0] 4 (Some (L (CHR 0x5C # ''b''))) =
              Some (STATUS_SUCCESS, buf') \<and>
            cstr buf' = L (''a'' @ CHR 0x5C # ''b'')) \<and>
   (\<exists>buf'. ConcatPaths [0x61, 0x5C, 0, 0] 4 (Some (L ''b'')) = Some (STATUS_SUCCESS, buf') \<and>
            cstr buf' = L (''a'' @ CHR 0x5C # ''b''))"
  using ConcatPaths_examples [of 4 "[0x61, 0, 0, 0]"]
        ConcatPaths_examples [of 4 "[0x61, 0x5C, 0, 0]"]
  by (simp add: L_def NTSTRSAFE_MAX_CCH_def)

text \<open>
  Claim C10.  For every base of non-zero length whose last character is not the
  separator, joining the empty string (an addition that is present and has length 0)
  with sufficient capacity succeeds and appends one separator to the base, so the base
  does not stay as it was.
\<close>

theorem ConcatPaths_empty_addition:
  assumes "cstr buf \<noteq> []" "last (cstr buf) \<noteq> OBJ_NAME_PATH_SEPARATOR"
    and "cstr a = []"
    and "length (cstr buf) + 1 < cap" "cap \<le> length buf" "cap \<le> NTSTRSAFE_MAX_CCH"
  shows "\<exists>buf'. ConcatPaths buf cap (Some a) = Some (STATUS_SUCCESS, buf') \<and>
           cstr buf' = cstr buf @ [OBJ_NAME_PATH_SEPARATOR] \<and> cstr buf' \<noteq> cstr buf"
proof -
  have j: "spec_join (cstr buf) (cstr a) = cstr buf @ [OBJ_NAME_PATH_SEPARATOR]"
    using assms(1,2,3) by (simp add: spec_join_def)
  have "1 < cap" "length (cstr buf) < cap" using assms(4) by simp_all
  from ConcatPaths_spec_join [OF this(1) assms(5,6) this(2), of a] assms(4)
  show ?thesis by (auto simp: j)
qed

theorem ConcatPaths_empty_addition_witness:
  "\<exists>buf'. ConcatPaths [0x61, 0x62, 0, 0x7A, 0x7A] 5 (Some []) = Some (STATUS_SUCCESS, buf') \<and>
     cstr buf' = [0x61, 0x62, OBJ_NAME_PATH_SEPARATOR] \<and> cstr buf' \<noteq> [0x61, 0x62]"
  using ConcatPaths_empty_addition [of "[0x61, 0x62, 0, 0x7A, 0x7A]" "[]" 5]
  by (simp add: NTSTRSAFE_MAX_CCH_def)

section \<open>The mapped file\<close>

lemma build_FullName_total:
  assumes "length FullName = MAX_PATH"
  shows "\<exists>buf. build_FullName FullName PathName FileName = Some buf"
proof -
  have m: "0 < MAX_PATH" "MAX_PATH \<le> NTSTRSAFE_MAX_CCH"
    by (simp_all add: MAX_PATH_def NTSTRSAFE_MAX_CCH_def)
  have "\<exists>b1. (case PathName of
              Some p \<Rightarrow> map_option snd (RtlStringCchCopyW FullName MAX_PATH p)
            | None \<Rightarrow> if 0 < length FullName then Some (FullName[0 := 0]) else None) = Some b1 \<and>
          length b1 = MAX_PATH \<and> 0 \<in> set b1"
  proof (cases PathName)
    case None
    have "0 \<in> set (FullName[0 := 0])"
      using assms m(1) by (cases FullName) auto
    with None assms m(1) show ?thesis by simp
  next
    case (Some p)
    from RtlStringCchCopyW_frame [of MAX_PATH FullName p] assms m
    obtain st b where "RtlStringCchCopyW FullName MAX_PATH p = Some (st, b)"
      "length b = length FullName" "0 \<in> set b" by auto
    with Some assms show ?thesis by simp
  qed
  then obtain b1 where b1: "(case PathName of
              Some p \<Rightarrow> map_option snd (RtlStringCchCopyW FullName MAX_PATH p)
            | None \<Rightarrow> if 0 < length FullName then Some (FullName[0 := 0]) else None) = Some b1"
    "length b1 = MAX_PATH" "0 \<in> set b1" by blast
  show ?thesis
  proof (cases FileName)
    case None
    with b1 show ?thesis by (simp add: build_FullName_def)
  next
    case (Some f)
    from ConcatPaths_frame [of MAX_PATH b1 "Some f"] b1
    obtain st b2 where "ConcatPaths b1 MAX_PATH (Some f) = Some (st, b2)" by auto
    with Some b1 show ?thesis by (simp add: build_FullName_def)
  qed
qed

lemma NT_SUCCESS_simps2 [simp]:
  "\<not> NT_SUCCESS STATUS_INVALID_HANDLE"
  "\<not> NT_SUCCESS STATUS_NOT_MAPPED_VIEW"
  "\<not> NT_SUCCESS STATUS_OBJECT_NAME_NOT_FOUND"
  by (simp_all add: NT_SUCCESS_def STATUS_INVALID_HANDLE_def STATUS_NOT_MAPPED_VIEW_def
        STATUS_OBJECT_NAME_NOT_FOUND_def)

lemma log_call_simps [simp]:
  "handles (log_call c k) = handles k"
  "views (log_call c k) = views k"
  "calls (log_call c k) = calls k @ [c]"
  by (simp_all add: log_call_def)

lemma NtClose_effect:
  "handles (snd (NtClose h k)) = remove1 h (handles k)"
  "views (snd (NtClose h k)) = views k"
  "calls (snd (NtClose h k)) = calls k @ [SysClose h]"
  "NT_SUCCESS (fst (NtClose h k)) \<longleftrightarrow> h \<in> set (handles k)"
  by (simp_all add: NtClose_def Let_def remove1_idem)

lemma NtUnmapViewOfSection_effect:
  "handles (snd (NtUnmapViewOfSection b k)) = handles k"
  "views (snd (NtUnmapViewOfSection b k)) = remove1 b (views k)"
  "calls (snd (NtUnmapViewOfSection b k)) = calls k @ [SysUnmapViewOfSection b]"
  "NT_SUCCESS (fst (NtUnmapViewOfSection b k)) \<longleftrightarrow> b \<in> set (views k)"
  by (simp_all add: NtUnmapViewOfSection_def Let_def remove1_idem)

lemma opened_share_append [simp]:
  "opened_share (xs @ ys) = opened_share xs @ opened_share ys"
  by (induction xs rule: opened_share.induct) simp_all

lemma OpenAndMapFile_map_effect:
  assumes "OpenAndMapFile_map nt File Size k = (r, k')"
  shows "FileSize r = Size"
    and "opened_share (calls k') = opened_share (calls k)"
    and "\<exists>rest. calls k' =
           calls k @ SysCreateSection SECTION_MAP_READ PAGE_READONLY SEC_COMMIT File # rest"
    and "\<not> NT_SUCCESS (ReturnedStatus r) \<Longrightarrow>
           handles k' = remove1 File (handles k) \<and> views k' = views k \<and>
           FileHandle r = NULL \<and> SectionHandle r = NULL \<and> BaseAddress r = None"
    and "NT_SUCCESS (ReturnedStatus r) \<Longrightarrow>
           ReturnedStatus r = STATUS_SUCCESS \<and> FileHandle r = File \<and>
           handles k' = SectionHandle r # handles k \<and>
           (\<exists>base. BaseAddress r = Some base \<and> views k' = base # views k)"
    and "NT_SUCCESS (ReturnedStatus r) \<longleftrightarrow>
           NT_SUCCESS (fst (create_section nt File k)) \<and>
           NT_SUCCESS (fst (map_view nt (fst (snd (NtCreateSection nt SECTION_MAP_READ
              PAGE_READONLY SEC_COMMIT File k))) (snd (snd (NtCreateSection nt SECTION_MAP_READ
              PAGE_READONLY SEC_COMMIT File k)))))"
  using assms
  by (auto simp: OpenAndMapFile_map_def NtCreateSection_def NtMapViewOfSection_def
        NtClose_def Let_def remove1_idem split: prod.splits if_splits)

lemma NtOpenFile_effect:
  assumes "NtOpenFile nt req k = (st, h, k1)"
  shows "st = fst (open_file nt req k)"
    and "calls k1 = calls k @ [SysOpenFile req]"
    and "views k1 = views k"
    and "NT_SUCCESS st \<Longrightarrow> handles k1 = h # handles k"
    and "\<not> NT_SUCCESS st \<Longrightarrow> handles k1 = handles k \<and> h = NULL"
  using assms by (auto simp: NtOpenFile_def Let_def split: prod.splits if_splits)

lemma NtQueryInformationFile_effect:
  assumes "NtQueryInformationFile nt h k = (st, eof, k1)"
  shows "(st, eof) = query_end_of_file nt h k"
    and "calls k1 = calls k @ [SysQueryInformationFile h]"
    and "views k1 = views k" and "handles k1 = handles k"
  using assms by (auto simp: NtQueryInformationFile_def Let_def split: prod.splits)

text \<open>
  The three ways through \<open>OpenAndMapFile\<close>: the open fails; the size is wanted and the
  query fails; or the function goes on to create the section and map the view.
\<close>

lemma OpenAndMapFile_cases [consumes 1, case_names open_failed query_failed mapped]:
  assumes "length FullName = MAX_PATH"
  obtains
    (open_failed) buf st k1 where
      "build_FullName FullName PathName FileName = Some buf"
      "NtOpenFile nt (OpenAndMapFile_request Root (cstr buf)) k = (st, NULL, k1)"
      "\<not> NT_SUCCESS st"
      "OpenAndMapFile nt FullName Root PathName FileName wantSize k =
         Some (\<lparr>ReturnedStatus = st, FileHandle = NULL, SectionHandle = NULL,
                BaseAddress = None, FileSize = None\<rparr>, k1)"
  | (query_failed) buf st File k1 qs eof k2 cs k3 where
      "build_FullName FullName PathName FileName = Some buf"
      "NtOpenFile nt (OpenAndMapFile_request Root (cstr buf)) k = (st, File, k1)"
      "NT_SUCCESS st" "wantSize"
      "NtQueryInformationFile nt File k1 = (qs, eof, k2)" "\<not> NT_SUCCESS qs"
      "NtClose File k2 = (cs, k3)"
      "OpenAndMapFile nt FullName Root PathName FileName wantSize k =
         Some (\<lparr>ReturnedStatus = qs, FileHandle = NULL, SectionHandle = NULL,
                BaseAddress = None, FileSize = None\<rparr>, k3)"
  | (mapped) buf st File k1 Size km where
      "build_FullName FullName PathName FileName = Some buf"
      "NtOpenFile nt (OpenAndMapFile_request Root (cstr buf)) k = (st, File, k1)"
      "NT_SUCCESS st"
      "if wantSize
       then \<exists>qs eof. NtQueryInformationFile nt File k1 = (qs, eof, km) \<and> NT_SUCCESS qs \<and>
              Size = Some (ucast eof)
       else km = k1 \<and> Size = None"
      "OpenAndMapFile nt FullName Root PathName FileName wantSize k =
         Some (OpenAndMapFile_map nt File Size km)"
proof -
  from build_FullName_total [OF assms] obtain buf where
    buf: "build_FullName FullName PathName FileName = Some buf" by blast
  let ?req = "OpenAndMapFile_request Root (cstr buf)"
  obtain st File k1 where op: "NtOpenFile nt ?req k = (st, File, k1)"
    by (cases "NtOpenFile nt ?req k") auto
  show ?thesis
  proof (cases "NT_SUCCESS st")
    case False
    with NtOpenFile_effect(5) [OF op] have "File = NULL" by simp
    with False op show ?thesis
      by (intro open_failed [OF buf]) (simp_all add: OpenAndMapFile_def buf)
  next
    case opened: True
    show ?thesis
    proof (cases wantSize)
      case False
      with opened show ?thesis
        by (intro mapped [OF buf op, where Size = None and km = k1])
           (simp_all add: OpenAndMapFile_def buf op)
    next
      case True
      obtain qs eof k2 where q: "NtQueryInformationFile nt File k1 = (qs, eof, k2)"
        by (cases "NtQueryInformationFile nt File k1") auto
      show ?thesis
      proof (cases "NT_SUCCESS qs")
        case False
        obtain cs k3 where c: "NtClose File k2 = (cs, k3)" by (cases "NtClose File k2") auto
        from opened True False show ?thesis
          by (intro query_failed [OF buf op _ _ q _ c])
             (simp_all add: OpenAndMapFile_def buf op q c)
      next
        case queried: True
        with opened True show ?thesis
          by (intro mapped [OF buf op, where Size = "Some (ucast eof)" and km = k2])
             (simp_all add: OpenAndMapFile_def buf op q)
      qed
    qed
  qed
qed



text \<open>
  Claim C5.  The claim reads: \<open>OpenAndMapFile\<close> opens the file with a read handle that
  is shared for both read and write access by other processes.

  Line 269 passes \<^verbatim>\<open>FILE_SHARE_READ\<close> alone: the share mask of the one file opened has
  no \<^verbatim>\<open>FILE_SHARE_WRITE\<close> bit.  (The two existence probes, which close the handle at
  once, pass \<^verbatim>\<open>FILE_SHARE_READ | FILE_SHARE_WRITE\<close>; \<open>OpenAndMapFile\<close> keeps the file open
  for a read-only mapping.)
\<close>

theorem OpenAndMapFile_not_shared_for_write:
  "opened_share (calls (snd (the (OpenAndMapFile no_file_service (replicate MAX_PATH 0) NULL None
      (Some (L ''setup.inf'')) False idle_kernel)))) = [FILE_SHARE_READ] \<and>
   FILE_SHARE_READ AND FILE_SHARE_WRITE = 0 \<and>
   FILE_SHARE_READ \<noteq> FILE_SHARE_READ OR FILE_SHARE_WRITE"
proof -
  have len: "length (replicate MAX_PATH (0::WCHAR)) = MAX_PATH" by simp
  have fails: "\<not> NT_SUCCESS (fst (open_file no_file_service req k))" for req k
    by (simp add: no_file_service_def)
  have "opened_share (calls (snd (the (OpenAndMapFile no_file_service (replicate MAX_PATH 0)
      NULL None (Some (L ''setup.inf'')) False idle_kernel)))) = [FILE_SHARE_READ]"
    using len
  proof (cases rule: OpenAndMapFile_cases
      [where nt = no_file_service and Root = NULL and PathName = None
         and FileName = "Some (L ''setup.inf'')" and wantSize = False and k = idle_kernel])
    case (open_failed buf st k1)
    from NtOpenFile_effect(2) [OF open_failed(2)] open_failed(4) show ?thesis
      by (simp add: OpenAndMapFile_request_def idle_kernel_def)
  next
    case (query_failed buf st File k1 qs eof k2 cs k3)
    then show ?thesis by simp
  next
    case (mapped buf st File k1 Size km)
    from NtOpenFile_effect(1) [OF mapped(2)] mapped(3) fails show ?thesis by simp
  qed
  then show ?thesis by (simp add: FILE_SHARE_READ_def FILE_SHARE_WRITE_def)
qed

text \<open>
  Claim C5, as the code has it: every call of \<open>OpenAndMapFile\<close> opens exactly one
  file, as its first system call, with a read handle (desired access
  \<^verbatim>\<open>GENERIC_READ | SYNCHRONIZE\<close>, synchronous, not a directory, name case-insensitive,
  relative to the root directory given) that is shared for read access only
  (\<^verbatim>\<open>FILE_SHARE_READ\<close>); on success the file handle returned is the one this open
  gave.
\<close>

theorem OpenAndMapFile_share_read_only:
  assumes "length FullName = MAX_PATH"
  shows "\<exists>r k' req rest.
           OpenAndMapFile nt FullName Root PathName FileName wantSize k = Some (r, k') \<and>
           calls k' = calls k @ SysOpenFile req # rest \<and>
           opened_share (calls k') = opened_share (calls k) @ [FILE_SHARE_READ] \<and>
           DesiredAccess req = GENERIC_READ OR SYNCHRONIZE \<and>
           ShareAccess req = FILE_SHARE_READ \<and>
           OpenOptions req = FILE_SYNCHRONOUS_IO_NONALERT OR FILE_NON_DIRECTORY_FILE \<and>
           Attributes req = OBJ_CASE_INSENSITIVE \<and> RootDirectory req = Root \<and>
           (NT_SUCCESS (fst (open_file nt req k)) \<longrightarrow>
              NT_SUCCESS (ReturnedStatus r) \<longrightarrow> FileHandle r = snd (open_file nt req k))"
  using assms
proof (cases rule: OpenAndMapFile_cases
    [where nt = nt and Root = Root and PathName = PathName and FileName = FileName
       and wantSize = wantSize and k = k])
  case (open_failed buf st k1)
  from NtOpenFile_effect(1,2) [OF open_failed(2)] open_failed(3,4) show ?thesis
    by (simp add: OpenAndMapFile_request_def)
next
  case (query_failed buf st File k1 qs eof k2 cs k3)
  from NtOpenFile_effect(2) [OF query_failed(2)]
    NtQueryInformationFile_effect(2) [OF query_failed(5)]
    NtClose_effect(3) [of File k2] query_failed(6,7,8)
  show ?thesis by (simp add: OpenAndMapFile_request_def)
next
  case (mapped buf st File k1 Size km)
  let ?req = "OpenAndMapFile_request Root (cstr buf)"
  have File: "File = snd (open_file nt ?req k)"
    using mapped(2,3) by (auto simp: NtOpenFile_def Let_def split: prod.splits if_splits)
  have km: "\<exists>mid. calls km = calls k @ SysOpenFile ?req # mid \<and> opened_share mid = []"
    using mapped(4) NtOpenFile_effect(2) [OF mapped(2)]
    by (auto split: if_splits dest: NtQueryInformationFile_effect(2))
  then obtain mid where mid: "calls km = calls k @ SysOpenFile ?req # mid" "opened_share mid = []"
    by blast
  obtain r k' where m: "OpenAndMapFile_map nt File Size km = (r, k')"
    by (cases "OpenAndMapFile_map nt File Size km") auto
  from OpenAndMapFile_map_effect(3) [OF m] obtain rest where
    rest: "calls k' = calls km @ SysCreateSection SECTION_MAP_READ PAGE_READONLY SEC_COMMIT File # rest"
    by blast
  have c: "calls k' = calls k @ SysOpenFile ?req #
             (mid @ SysCreateSection SECTION_MAP_READ PAGE_READONLY SEC_COMMIT File # rest)"
    using rest mid(1) by simp
  have s: "opened_share (calls k') = opened_share (calls k) @ [FILE_SHARE_READ]"
    using OpenAndMapFile_map_effect(2) [OF m] mid by (simp add: OpenAndMapFile_request_def)
  have f: "NT_SUCCESS (ReturnedStatus r) \<longrightarrow> FileHandle r = snd (open_file nt ?req k)"
    using OpenAndMapFile_map_effect(5) [OF m] File by simp
  show ?thesis
    using mapped(5) m c s f by (auto simp: OpenAndMapFile_request_def)
qed

theorem OpenAndMapFile_share_read_only_witness:
  "\<exists>r k' req rest. OpenAndMapFile large_file_service (replicate MAX_PATH 0) NULL None
             (Some (L ''setup.inf'')) True idle_kernel = Some (r, k') \<and>
          calls k' = SysOpenFile req # rest \<and>
          opened_share (calls k') = [FILE_SHARE_READ] \<and>
          DesiredAccess req = GENERIC_READ OR SYNCHRONIZE \<and> ShareAccess req = FILE_SHARE_READ"
  using OpenAndMapFile_share_read_only
    [of "replicate MAX_PATH 0" large_file_service NULL None "Some (L ''setup.inf'')" True idle_kernel]
  by (simp add: idle_kernel_def) blast

lemma OpenAndMapFile_map_calls:
  assumes "OpenAndMapFile_map nt File Size k = (r, k')"
  shows "\<exists>rest. calls k' =
           calls k @ SysCreateSection SECTION_MAP_READ PAGE_READONLY SEC_COMMIT File # rest \<and>
           (NT_SUCCESS (fst (create_section nt File k)) \<longrightarrow>
              (\<exists>rest'. rest = SysMapViewOfSection (snd (create_section nt File k))
                                 ViewShare PAGE_READONLY # rest'))"
  using assms
  by (auto simp: OpenAndMapFile_map_def NtCreateSection_def NtMapViewOfSection_def
        NtClose_def Let_def split: prod.splits if_splits)

lemma OpenAndMapFile_map_success:
  assumes "\<forall>h kk. create_section nt h kk = (cs, Section)" "NT_SUCCESS cs"
    and "\<forall>h kk. map_view nt h kk = (ms, Base)" "NT_SUCCESS ms"
    and "OpenAndMapFile_map nt File Size k = (r, k')"
  shows "r = \<lparr>ReturnedStatus = STATUS_SUCCESS, FileHandle = File, SectionHandle = Section,
              BaseAddress = Some Base, FileSize = Size\<rparr>"
    and "handles k' = Section # handles k"
    and "views k' = Base # views k"
    and "calls k' = calls k @ [SysCreateSection SECTION_MAP_READ PAGE_READONLY SEC_COMMIT File,
                               SysMapViewOfSection Section ViewShare PAGE_READONLY]"
  using assms
  by (auto simp: OpenAndMapFile_map_def NtCreateSection_def NtMapViewOfSection_def
        Let_def split: prod.splits if_splits)



text \<open>
  Claim C9.  \<open>UnMapFile\<close> always issues both calls, the unmapping of the view and then
  the closing of the section handle, whatever the first one returns; it returns true
  if and only if both succeeded; and a section handle that is open is closed also when
  the unmapping fails.
\<close>

theorem UnMapFile_attempts_both:
  "calls (snd (UnMapFile Section Base k)) =
     calls k @ [SysUnmapViewOfSection Base, SysClose Section] \<and>
   (fst (UnMapFile Section Base k) \<longleftrightarrow>
      NT_SUCCESS (fst (NtUnmapViewOfSection Base k)) \<and>
      NT_SUCCESS (fst (NtClose Section (snd (NtUnmapViewOfSection Base k))))) \<and>
   handles (snd (UnMapFile Section Base k)) = remove1 Section (handles k) \<and>
   views (snd (UnMapFile Section Base k)) = remove1 Base (views k)"
proof -
  obtain s1 k1 where u: "NtUnmapViewOfSection Base k = (s1, k1)"
    by (cases "NtUnmapViewOfSection Base k") auto
  obtain s2 k2 where c: "NtClose Section k1 = (s2, k2)"
    by (cases "NtClose Section k1") auto
  have r: "UnMapFile Section Base k = (NT_SUCCESS s1 \<and> NT_SUCCESS s2, k2)"
    by (simp add: UnMapFile_def u c)
  from NtUnmapViewOfSection_effect(1,2,3) [of Base k] u
  have k1: "handles k1 = handles k" "views k1 = remove1 Base (views k)"
    "calls k1 = calls k @ [SysUnmapViewOfSection Base]" by simp_all
  from NtClose_effect(1,2,3) [of Section k1] c
  have k2: "handles k2 = remove1 Section (handles k1)" "views k2 = views k1"
    "calls k2 = calls k1 @ [SysClose Section]" by simp_all
  show ?thesis by (simp add: r u c k1 k2)
qed

theorem UnMapFile_attempts_both_witness:
  "\<not> fst (UnMapFile 8 7 \<lparr>handles = [8, 4], views = [65536], calls = []\<rparr>) \<and>
   handles (snd (UnMapFile 8 7 \<lparr>handles = [8, 4], views = [65536], calls = []\<rparr>)) = [4] \<and>
   calls (snd (UnMapFile 8 7 \<lparr>handles = [8, 4], views = [65536], calls = []\<rparr>)) =
     [SysUnmapViewOfSection 7, SysClose 8]"
  using UnMapFile_attempts_both [of 8 7 "\<lparr>handles = [8, 4], views = [65536], calls = []\<rparr>"]
  by (simp add: NtUnmapViewOfSection_def NtClose_def Let_def)

end
